theory Spec2Isabelle
  imports Complex_Main
begin

section \<open>The progress page: simulated ticks and polled task status\<close>

text \<open>
  This part embeds the page script: \<open>startProgressPolling\<close> with its inner
  \<open>runSimulation\<close> and its polling callback, \<open>updateProgress\<close> and
  \<open>updateStepStatus\<close>.

  What the script reads and writes is made explicit state:
  \<^item> the step elements found by \<open>[data-step="name"]\<close>, each with the status classes it
    carries (\<open>active\<close>, \<open>completed\<close>, \<open>pending\<close>); a name outside the domain of the
    map has no element;
  \<^item> the progress bar (\<open>progressFill.style.width\<close> as the number before the percent
    sign, \<open>progressText\<close> as the rounded number), absent when either element is missing;
  \<^item> the \<open>hidden\<close> class of the processing section;
  \<^item> the calls made to \<open>showError\<close>, and the results \<open>displayResults\<close> has
    shown, in order;
  \<^item> the module variables \<open>progressInterval\<close> and \<open>simulationInterval\<close>;
  \<^item> the interval timers of the event loop that are still scheduled, each with the
    closure it runs, and the status requests that have been sent and not yet settled.

  JavaScript numbers are modelled as exact reals, and \<open>Date.now()\<close> as an integer
  handed to the callback that reads it. Animation styles, descriptions and console
  output are not part of the state. The script neither creates nor removes the step
  elements and the bar, so the references \<open>startProgressPolling\<close> captures and the
  lookups \<open>updateProgress\<close> repeats find the same elements. Timer handles are
  greater than zero, as the platform gives them, so a variable holding one is truthy.

  Two calls of the polling callback can throw into its \<open>catch\<close>.
  \<open>displayResults(task.result)\<close> reads properties of its argument before it shows
  anything, so a response without result (\<open>t_result\<close> is \<open>None\<close>) makes it throw
  with nothing displayed, and the rest of the branch is skipped; a result that is present
  is taken to be one it displays. \<open>updateStepStatus\<close> puts the step name into the
  selector \<open>[data-step="name"]\<close> unescaped; the model reads the name as the value
  compared with the attribute, which is what the selector means for a name without double
  quote, backslash or line break. The catalog's names are such; a statement that depends
  on the names of a response says so.
\<close>

datatype step_status = Active | Completed | Pending

record bar =
  width :: real
  text_pct :: int

record task =
  t_status :: string
  t_progress :: "real option"
  t_current_step :: "string option"
  t_completed_steps :: "string list option"
  t_error :: "string option"
  t_result :: "string option"

datatype response = Rejected | NotOk | Json task

record sim_env =
  currentStepIndex :: nat
  stepStartTime :: int
  lastProgress :: real
  isTransitioning :: bool

datatype timer = SimTimer sim_env | PollTimer string

record page =
  steps_dom :: "string \<rightharpoonup> step_status set"
  progress_bar :: "bar option"
  processing_hidden :: "bool option"
  shown_errors :: "string list"
  displayed_results :: "string list"
  progressInterval :: "nat option"
  simulationInterval :: "nat option"
  timers :: "nat \<rightharpoonup> timer"
  next_handle :: nat
  inflight :: nat

definition steps :: "string list" where
  "steps = [''router'', ''extractor'', ''classifier'', ''labeler'', ''quality'', ''output'']"

text \<open>\<open>steps[i]\<close>: \<open>undefined\<close> out of range, which names no element.\<close>

definition step_at :: "nat \<Rightarrow> string option" where
  "step_at i = (if i < length steps then Some (steps ! i) else None)"

text \<open>\<open>Math.round\<close>.\<close>

definition js_round :: "real \<Rightarrow> int" where
  "js_round x = \<lfloor>x + 1 / 2\<rfloor>"

text \<open>
  \<open>updateStepStatus(stepName, status)\<close>: returns at once when the element is missing;
  otherwise removes the three status classes and adds \<open>status\<close> when it is
  \<open>active\<close> or \<open>completed\<close>. No other element is touched.
\<close>

definition updateStepStatus :: "string \<Rightarrow> step_status \<Rightarrow> page \<Rightarrow> page" where
  "updateStepStatus stepName status s =
     (case steps_dom s stepName of
        None \<Rightarrow> s
      | Some cs \<Rightarrow>
          s\<lparr>steps_dom := (steps_dom s)(stepName \<mapsto>
               (cs - {Active, Completed, Pending}) \<union>
               (if status = Active \<or> status = Completed then {status} else {}))\<rparr>)"

definition updateStepStatus_at :: "nat \<Rightarrow> step_status \<Rightarrow> page \<Rightarrow> page" where
  "updateStepStatus_at i status s =
     (case step_at i of None \<Rightarrow> s | Some n \<Rightarrow> updateStepStatus n status s)"

text \<open>Writing the bar: \<open>width = `${p}%`\<close>, \<open>textContent = `${Math.round(p)}%`\<close>.\<close>

definition set_bar :: "real \<Rightarrow> page \<Rightarrow> page" where
  "set_bar p s =
     (case progress_bar s of
        None \<Rightarrow> s
      | Some b \<Rightarrow> s\<lparr>progress_bar := Some \<lparr>width = p, text_pct = js_round p\<rparr>\<rparr>)"

text \<open>\<open>task.progress || 0\<close> and the truthiness of a string field.\<close>

definition progress_or_0 :: "task \<Rightarrow> real" where
  "progress_or_0 t = (case t_progress t of None \<Rightarrow> 0 | Some p \<Rightarrow> p)"

definition truthy_str :: "string option \<Rightarrow> bool" where
  "truthy_str x = (case x of None \<Rightarrow> False | Some v \<Rightarrow> v \<noteq> [])"

text \<open>
  \<open>updateProgress(task)\<close>: writes the clamped \<open>task.progress\<close> to the bar, whatever
  the bar showed before; then marks \<open>task.current_step\<close> active and every member of
  \<open>task.completed_steps\<close> completed.
\<close>

definition updateProgress :: "task \<Rightarrow> page \<Rightarrow> page" where
  "updateProgress t s =
     (let s1 = set_bar (min (max (progress_or_0 t) 0) 100) s;
          s2 = (if truthy_str (t_current_step t)
                then updateStepStatus (the (t_current_step t)) Active s1 else s1)
      in case t_completed_steps t of
           None \<Rightarrow> s2
         | Some cs \<Rightarrow> fold (\<lambda>n. updateStepStatus n Completed) cs s2)"

text \<open>
  \<open>runSimulation\<close>, the closure of one \<open>startProgressPolling\<close> call. \<open>now\<close> is
  the \<open>Date.now()\<close> read at the top, \<open>now2\<close> the one read when the step start time
  is reset. The closure variables are the \<open>sim_env\<close>. At a transition the script first
  rewrites the classes of the next step's element by hand (remove the three status
  classes, add \<open>active\<close>) and then calls \<open>updateStepStatus\<close> on it: on the classes
  both do the same, hence the double call below. \<open>isTransitioning\<close> is set and reset
  within the transition.
\<close>

definition stepDuration :: int where
  "stepDuration = 2000"

definition sim_progress :: "nat \<Rightarrow> int \<Rightarrow> real" where
  "sim_progress idx elapsed =
     (let baseProgress = (real idx / real (length steps)) * 100;
          stepProgress = min ((real_of_int elapsed / real_of_int stepDuration) * (100 / real (length steps)))
                             (100 / real (length steps))
      in min (baseProgress + stepProgress) 95)"

definition runSimulation :: "int \<Rightarrow> int \<Rightarrow> sim_env \<times> page \<Rightarrow> sim_env \<times> page" where
  "runSimulation now now2 es =
     (let e = fst es; s = snd es;
          elapsed = now - stepStartTime e;
          progress0 = sim_progress (currentStepIndex e) elapsed;
          progress = (if progress0 \<le> lastProgress e then lastProgress e + 8 / 10 else progress0);
          e1 = e\<lparr>lastProgress := progress\<rparr>;
          s1 = set_bar progress s;
          (e2, s2) =
            (if elapsed \<ge> stepDuration \<and> currentStepIndex e1 < length steps - 1 \<and> \<not> isTransitioning e1
             then
               let sa = updateStepStatus_at (currentStepIndex e1) Completed s1;
                   idx = currentStepIndex e1 + 1;
                   ea = e1\<lparr>currentStepIndex := idx, stepStartTime := now2,
                           lastProgress := (real idx / real (length steps)) * 100,
                           isTransitioning := False\<rparr>;
                   sb = updateStepStatus_at idx Active (updateStepStatus_at idx Active sa)
               in (ea, sb)
             else (e1, s1))
      in if currentStepIndex e2 \<ge> length steps - 1 \<and> elapsed \<ge> stepDuration
         then (e2, set_bar 100 (updateStepStatus_at (currentStepIndex e2) Completed s2))
         else (e2, s2))"

text \<open>\<open>clearInterval\<close> on each module variable, as the script guards and resets it.\<close>

definition clear_simulation :: "page \<Rightarrow> page" where
  "clear_simulation s =
     (case simulationInterval s of
        None \<Rightarrow> s
      | Some h \<Rightarrow> s\<lparr>simulationInterval := None, timers := (timers s)(h := None)\<rparr>)"

definition clear_polling :: "page \<Rightarrow> page" where
  "clear_polling s =
     (case progressInterval s of
        None \<Rightarrow> s
      | Some h \<Rightarrow> s\<lparr>progressInterval := None, timers := (timers s)(h := None)\<rparr>)"

text \<open>\<open>setInterval\<close>: a handle never used before, greater than zero.\<close>

definition setInterval :: "timer \<Rightarrow> page \<Rightarrow> nat \<times> page" where
  "setInterval t s =
     (let h = Suc (next_handle s)
      in (h, s\<lparr>timers := (timers s)(h \<mapsto> t), next_handle := h\<rparr>))"

definition hideProcessing :: "page \<Rightarrow> page" where
  "hideProcessing s =
     (case processing_hidden s of None \<Rightarrow> s | Some _ \<Rightarrow> s\<lparr>processing_hidden := Some True\<rparr>)"

definition showError :: "string \<Rightarrow> page \<Rightarrow> page" where
  "showError m s = s\<lparr>shown_errors := shown_errors s @ [m]\<rparr>"

text \<open>\<open>displayResults(result)\<close> on a result that is present.\<close>

definition displayResults :: "string \<Rightarrow> page \<Rightarrow> page" where
  "displayResults r s = s\<lparr>displayed_results := displayed_results s @ [r]\<rparr>"

text \<open>
  The part of \<open>startProgressPolling\<close> between the resets and the first
  \<open>runSimulation()\<close>: the processing section is made visible, the first step is marked
  active unless it already is, and a bar below 3 is set to 3.
\<close>

definition ensure_feedback :: "page \<Rightarrow> page" where
  "ensure_feedback sa =
     (let sb = (case processing_hidden sa of None \<Rightarrow> sa | Some _ \<Rightarrow> sa\<lparr>processing_hidden := Some False\<rparr>);
          sc = (case steps_dom sb (steps ! 0) of
                  None \<Rightarrow> sb
                | Some cs \<Rightarrow> if Active \<notin> cs then updateStepStatus (steps ! 0) Active sb else sb)
      in case progress_bar sc of
           None \<Rightarrow> sc
         | Some b \<Rightarrow> if width b < 3 then sc\<lparr>progress_bar := Some \<lparr>width = 3, text_pct = 3\<rparr>\<rparr> else sc)"

text \<open>
  \<open>startProgressPolling(taskId)\<close>. \<open>t0\<close> is the \<open>Date.now()\<close> that initialises
  \<open>stepStartTime\<close>; \<open>t1\<close> and \<open>t2\<close> are the reads of the first, immediate
  \<open>runSimulation()\<close>.
\<close>

definition startProgressPolling :: "string \<Rightarrow> int \<Rightarrow> int \<Rightarrow> int \<Rightarrow> page \<Rightarrow> page" where
  "startProgressPolling taskId t0 t1 t2 s =
     (let sa = clear_simulation (clear_polling s);
          e0 = \<lparr>currentStepIndex = 0, stepStartTime = t0, lastProgress = 0, isTransitioning = False\<rparr>;
          sd = ensure_feedback sa;
          (e1, se) = runSimulation t1 t2 (e0, sd);
          (h1, sf) = setInterval (SimTimer e1) se;
          sg = sf\<lparr>simulationInterval := Some h1\<rparr>;
          (h2, sh) = setInterval (PollTimer taskId) sg
      in sh\<lparr>progressInterval := Some h2\<rparr>)"

text \<open>
  The simulation interval firing: a cleared handle never fires; a live one runs the
  closure and keeps its updated variables.
\<close>

definition sim_fire :: "nat \<Rightarrow> int \<Rightarrow> int \<Rightarrow> page \<Rightarrow> page" where
  "sim_fire h now now2 s =
     (case timers s h of
        Some (SimTimer e) \<Rightarrow>
          (let (e', s') = runSimulation now now2 (e, s)
           in s'\<lparr>timers := (timers s')(h \<mapsto> SimTimer e')\<rparr>)
      | _ \<Rightarrow> s)"

text \<open>
  The polling interval firing: the callback runs up to \<open>await fetch(...)\<close>, which sends
  the request and suspends.
\<close>

definition poll_fire :: "nat \<Rightarrow> page \<Rightarrow> page" where
  "poll_fire h s =
     (case timers s h of
        Some (PollTimer taskId) \<Rightarrow> s\<lparr>inflight := inflight s + 1\<rparr>
      | _ \<Rightarrow> s)"

text \<open>The rest of the polling callback, from the parsed task on.\<close>

definition estimatedStep :: "real \<Rightarrow> nat" where
  "estimatedStep p = min (nat \<lfloor>p / (100 / real (length steps))\<rfloor>) (length steps - 1)"

definition apply_progress :: "task \<Rightarrow> page \<Rightarrow> page" where
  "apply_progress t s =
     (if progress_or_0 t > 0
      then
        let sa = clear_simulation s;
            est = estimatedStep (progress_or_0 t);
            sb = fold (\<lambda>i. updateStepStatus_at i Completed) [0 ..< est] sa;
            sc = (if est < length steps then updateStepStatus_at est Active sb else sb)
        in updateProgress t sc
      else s)"

definition error_or_default :: "task \<Rightarrow> string" where
  "error_or_default t = (if truthy_str (t_error t) then the (t_error t) else ''Processing failed'')"

definition apply_status :: "task \<Rightarrow> page \<Rightarrow> page" where
  "apply_status t s =
     (if t_status t = ''completed''
      then
        let sa = clear_simulation s;
            sb = fold (\<lambda>n. updateStepStatus n Completed) steps sa;
            sc = updateProgress (t\<lparr>t_progress := Some 100\<rparr>) sb;
            sd = clear_polling sc
        in case t_result t of
             None \<Rightarrow> sd
           | Some r \<Rightarrow> hideProcessing (displayResults r sd)
      else if t_status t = ''failed''
      then hideProcessing (showError (error_or_default t) (clear_polling (clear_simulation s)))
      else s)"

definition handle_task :: "task \<Rightarrow> page \<Rightarrow> page" where
  "handle_task t s = apply_status t (apply_progress t s)"

text \<open>
  A status request settling: a rejected fetch and a response that is not ok both end in
  the \<open>catch\<close>, which only logs.
\<close>

definition poll_settle :: "response \<Rightarrow> page \<Rightarrow> page" where
  "poll_settle r s =
     (if inflight s = 0 then s
      else
        let s' = s\<lparr>inflight := inflight s - 1\<rparr>
        in case r of Json t \<Rightarrow> handle_task t s' | _ \<Rightarrow> s')"

text \<open>
  What can happen on the page: a call of \<open>startProgressPolling\<close>, a firing of either
  interval, a status request settling. Nothing is assumed about their order or their
  times; a run is any list of them.
\<close>

datatype event =
    Start string int int int
  | SimFire nat int int
  | PollFire nat
  | PollSettle response

fun step :: "event \<Rightarrow> page \<Rightarrow> page" where
  "step (Start taskId t0 t1 t2) s = startProgressPolling taskId t0 t1 t2 s"
| "step (SimFire h now now2) s = sim_fire h now now2 s"
| "step (PollFire h) s = poll_fire h s"
| "step (PollSettle r) s = poll_settle r s"

definition run :: "event list \<Rightarrow> page \<Rightarrow> page" where
  "run evs s = fold step evs s"

text \<open>
  The page before the first submission: six step elements without status class, the bar
  at zero, the processing section hidden, no timer.
\<close>

definition fresh_page :: page where
  "fresh_page =
     \<lparr>steps_dom = map_of (map (\<lambda>n. (n, {})) steps),
      progress_bar = Some \<lparr>width = 0, text_pct = 0\<rparr>,
      processing_hidden = Some True,
      shown_errors = [], displayed_results = [],
      progressInterval = None, simulationInterval = None,
      timers = Map.empty, next_handle = 0, inflight = 0\<rparr>"

section \<open>The pipeline component: timers of one effect run\<close>

text \<open>
  This part embeds the effect of the \<open>ProcessingPipeline\<close> component: \<open>startStep\<close>,
  the callbacks of the timers it creates, and the cleanup function the effect returns.
  The component polls nothing: its only producers are its own timers.

  The record holds the values last passed to the state setters
  (\<open>setCurrentStep\<close>, \<open>setProgress\<close>, \<open>setStatus\<close>, \<open>setStepStatuses\<close>,
  \<open>setIsCompleted\<close>), the effect's variables \<open>progressTimer\<close> and \<open>stepTimer\<close>,
  the timers of the event loop not yet fired or cleared, each with the closure it runs,
  whether the \<open>onComplete\<close> prop is given, and how often it has been called. The
  component's \<open>steps\<close> array has the six ids of the page's list, and only its length is
  used. \<open>stepStatuses\<close> has one entry per step and is written at indices below that
  length only, so the list update never leaves its range. Nothing is assumed about the
  order or the times of the firings; a run is any list of firings and cleanups.
\<close>

datatype ptimer =
    ProgressTick real real real
  | StepDone nat
  | NextStep nat
  | CallOnComplete

record pipeline =
  currentStep :: nat
  progress :: real
  status :: string
  stepStatuses :: "step_status list"
  isCompleted :: bool
  progressTimer :: "nat option"
  stepTimer :: "nat option"
  pending :: "nat \<rightharpoonup> ptimer"
  next_id :: nat
  has_onComplete :: bool
  onComplete_calls :: nat

text \<open>\<open>setInterval\<close> and \<open>setTimeout\<close> share one pool of handles.\<close>

definition schedule :: "ptimer \<Rightarrow> pipeline \<Rightarrow> nat \<times> pipeline" where
  "schedule t s =
     (let h = Suc (next_id s)
      in (h, s\<lparr>pending := (pending s)(h \<mapsto> t), next_id := h\<rparr>))"

text \<open>\<open>clearInterval(x)\<close> and \<open>clearTimeout(x)\<close>; nothing happens on \<open>null\<close>.\<close>

definition clear_timer :: "nat option \<Rightarrow> pipeline \<Rightarrow> pipeline" where
  "clear_timer x s = (case x of None \<Rightarrow> s | Some h \<Rightarrow> s\<lparr>pending := (pending s)(h := None)\<rparr>)"

text \<open>
  \<open>startStep(stepIndex)\<close>. Past the last step it sets the status to completed and, when
  the prop is given, schedules the call of \<open>onComplete\<close> 500 ms later, keeping no
  handle. Otherwise it marks the step active and creates the progress interval
  (\<open>ProgressTick currentProgress progressIncrement targetProgress\<close>) and the step
  timeout, keeping their handles in \<open>progressTimer\<close> and \<open>stepTimer\<close>.
\<close>

definition startStep :: "nat \<Rightarrow> pipeline \<Rightarrow> pipeline" where
  "startStep stepIndex s =
     (if stepIndex \<ge> length steps
      then
        let s1 = s\<lparr>status := ''Completed'', isCompleted := True, progress := 100\<rparr>
        in if has_onComplete s1 then snd (schedule CallOnComplete s1) else s1
      else
        let s1 = s\<lparr>stepStatuses := (stepStatuses s)[stepIndex := Active], currentStep := stepIndex\<rparr>;
            targetProgress = (real (stepIndex + 1) / real (length steps)) * 100;
            startProgress = (real stepIndex / real (length steps)) * 100;
            progressIncrement = (targetProgress - startProgress) / (1500 / 50);
            (h1, s2) = schedule (ProgressTick startProgress progressIncrement targetProgress) s1;
            s3 = s2\<lparr>progressTimer := Some h1\<rparr>;
            (h2, s4) = schedule (StepDone stepIndex) s3
        in s4\<lparr>stepTimer := Some h2\<rparr>)"

text \<open>
  A timer firing. A handle that is not pending fires nothing. An interval stays pending
  after its callback, a timeout does not. The progress callback clears whatever handle
  \<open>progressTimer\<close> holds at that moment. The step timeout marks the step completed and
  schedules, keeping no handle, the timeout that starts the next step 200 ms later.
\<close>

definition fire :: "nat \<Rightarrow> pipeline \<Rightarrow> pipeline" where
  "fire h s =
     (case pending s h of
        None \<Rightarrow> s
      | Some (ProgressTick currentProgress progressIncrement targetProgress) \<Rightarrow>
          (let c1 = currentProgress + progressIncrement
           in if c1 \<ge> targetProgress
              then
                let s1 = s\<lparr>pending := (pending s)(h \<mapsto> ProgressTick targetProgress progressIncrement targetProgress)\<rparr>
                in (clear_timer (progressTimer s1) s1)\<lparr>progress := targetProgress\<rparr>
              else s\<lparr>pending := (pending s)(h \<mapsto> ProgressTick c1 progressIncrement targetProgress),
                     progress := c1\<rparr>)
      | Some (StepDone stepIndex) \<Rightarrow>
          snd (schedule (NextStep stepIndex)
                 (s\<lparr>pending := (pending s)(h := None),
                    stepStatuses := (stepStatuses s)[stepIndex := Completed]\<rparr>))
      | Some (NextStep stepIndex) \<Rightarrow>
          startStep (stepIndex + 1) (s\<lparr>pending := (pending s)(h := None)\<rparr>)
      | Some CallOnComplete \<Rightarrow>
          s\<lparr>pending := (pending s)(h := None), onComplete_calls := onComplete_calls s + 1\<rparr>)"

text \<open>The cleanup the effect returns.\<close>

definition cleanup :: "pipeline \<Rightarrow> pipeline" where
  "cleanup s = clear_timer (stepTimer s) (clear_timer (progressTimer s) s)"

text \<open>The effect with \<open>autoStart\<close> true: the initial state of the hooks, then \<open>startStep(0)\<close>.\<close>

definition mount :: "bool \<Rightarrow> pipeline" where
  "mount onComplete_given =
     startStep 0
       \<lparr>currentStep = 0, progress = 0, status = ''In Progress'',
        stepStatuses = map (\<lambda>_. Pending) steps, isCompleted = False,
        progressTimer = None, stepTimer = None, pending = Map.empty, next_id = 0,
        has_onComplete = onComplete_given, onComplete_calls = 0\<rparr>"

datatype pevent = Fire nat | Cleanup

fun pstep :: "pevent \<Rightarrow> pipeline \<Rightarrow> pipeline" where
  "pstep (Fire h) s = fire h s"
| "pstep Cleanup s = cleanup s"

definition prun :: "pevent list \<Rightarrow> pipeline \<Rightarrow> pipeline" where
  "prun evs s = fold pstep evs s"

text \<open>
  The firings of one step in the order of their due times: thirty ticks of the progress
  interval (50 ms apart), the step timeout (1500 ms) and the timeout that starts the next
  step (200 ms later). Step \<open>i\<close> creates the handles \<open>3i + 1\<close>, \<open>3i + 2\<close> and
  \<open>3i + 3\<close>; handle 19 is the call of \<open>onComplete\<close>.
\<close>

definition step_firings :: "nat \<Rightarrow> pevent list" where
  "step_firings i = replicate 30 (Fire (3 * i + 1)) @ [Fire (3 * i + 2), Fire (3 * i + 3)]"

definition whole_run :: "pevent list" where
  "whole_run = concat (map step_firings [0 ..< 6]) @ [Fire 19]"


section \<open>Vocabulary of the properties\<close>

text \<open>
  The fields of the page other than the step elements and the bar: the timers, the two
  module variables, the requests in flight and what has been shown to the user.
\<close>

definition controls :: "page \<Rightarrow> (nat \<rightharpoonup> timer) \<times> nat option \<times> nat option \<times> nat \<times> nat \<times> string list \<times> string list \<times> bool option" where
  "controls s = (timers s, progressInterval s, simulationInterval s, next_handle s, inflight s,
                 shown_errors s, displayed_results s, processing_hidden s)"

text \<open>
  Every scheduled timer is the one whose handle its module variable holds, and no handle
  beyond the last one given out is scheduled.
\<close>

definition timers_owned :: "page \<Rightarrow> bool" where
  "timers_owned s \<longleftrightarrow>
     (\<forall>h e. timers s h = Some (SimTimer e) \<longrightarrow> simulationInterval s = Some h) \<and>
     (\<forall>h tid. timers s h = Some (PollTimer tid) \<longrightarrow> progressInterval s = Some h) \<and>
     (\<forall>h t. timers s h = Some t \<longrightarrow> h \<le> next_handle s)"

text \<open>A run of the page lasts until the next call of \<open>startProgressPolling\<close>.\<close>

definition is_Start :: "event \<Rightarrow> bool" where
  "is_Start ev = (case ev of Start _ _ _ _ \<Rightarrow> True | _ \<Rightarrow> False)"

text \<open>No simulation timer is scheduled.\<close>

definition no_sim :: "page \<Rightarrow> bool" where
  "no_sim s \<longleftrightarrow> (\<forall>h e. timers s h \<noteq> Some (SimTimer e))"

text \<open>Some responses of the status endpoint.\<close>

definition sample40 :: task where
  "sample40 = \<lparr>t_status = ''running'', t_progress = Some 40, t_current_step = Some ''classifier'',
               t_completed_steps = None, t_error = None, t_result = None\<rparr>"

definition failedE1 :: task where
  "failedE1 = \<lparr>t_status = ''failed'', t_progress = None, t_current_step = None,
               t_completed_steps = None, t_error = Some ''E1'', t_result = None\<rparr>"

definition failed60 :: task where
  "failed60 = \<lparr>t_status = ''failed'', t_progress = Some 60, t_current_step = None,
               t_completed_steps = None, t_error = Some ''E1'', t_result = None\<rparr>"

definition sample10 :: task where
  "sample10 = \<lparr>t_status = ''running'', t_progress = Some 10, t_current_step = None,
               t_completed_steps = None, t_error = None, t_result = None\<rparr>"

definition sample20 :: task where
  "sample20 = \<lparr>t_status = ''running'', t_progress = Some 20, t_current_step = Some ''extractor'',
               t_completed_steps = None, t_error = None, t_result = None\<rparr>"

definition completedAtOutput :: task where
  "completedAtOutput = \<lparr>t_status = ''completed'', t_progress = Some 100, t_current_step = Some ''output'',
               t_completed_steps = None, t_error = None, t_result = Some ''labels''\<rparr>"

text \<open>
  The simulated progress as the specification words it:
  \<open>(currentStageIndex + min(elapsed / stepDurationMs, 1)) / N * 100\<close>, clamped to at most 95.
\<close>

definition spec_overallProgress :: "nat \<Rightarrow> int \<Rightarrow> real" where
  "spec_overallProgress currentStageIndex elapsed =
     min ((real currentStageIndex + min (real_of_int elapsed / real_of_int stepDuration) 1)
            / real (length steps) * 100) 95"

text \<open>
  Step names for which \<open>[data-step="name"]\<close> is a well-formed selector that compares
  the attribute with the name: no double quote, backslash, line break or null character.
\<close>

definition plain_name :: "string \<Rightarrow> bool" where
  "plain_name n \<longleftrightarrow>
     list_all (\<lambda>c. c \<notin> {CHR 0x22, CHR 0x5C, CHR 0x0A, CHR 0x0C, CHR 0x0D, CHR 0x00}) n"

definition plain_steps :: "task \<Rightarrow> bool" where
  "plain_steps t \<longleftrightarrow>
     (case t_current_step t of None \<Rightarrow> True | Some n \<Rightarrow> plain_name n) \<and>
     (case t_completed_steps t of None \<Rightarrow> True | Some ns \<Rightarrow> list_all plain_name ns)"

text \<open>A stage is shown active when its element carries the class \<open>active\<close>.\<close>

definition active_in :: "page \<Rightarrow> string \<Rightarrow> bool" where
  "active_in s n = (case steps_dom s n of None \<Rightarrow> False | Some cs \<Rightarrow> Active \<in> cs)"

text \<open>The number of stages of the catalog shown active.\<close>

definition active_count :: "page \<Rightarrow> nat" where
  "active_count s = length (filter (active_in s) steps)"

text \<open>No stage of the catalog other than \<open>steps[i]\<close> is shown active.\<close>

definition only_active_at :: "page \<Rightarrow> nat \<Rightarrow> bool" where
  "only_active_at s i \<longleftrightarrow> (\<forall>n\<in>set steps. active_in s n \<longrightarrow> step_at i = Some n)"

text \<open>A firing of the simulation interval.\<close>

definition is_SimFire :: "event \<Rightarrow> bool" where
  "is_SimFire ev = (case ev of SimFire _ _ _ \<Rightarrow> True | _ \<Rightarrow> False)"

text \<open>
  The simulation owns the active mark: the timers are owned by the module variables and the
  only stage shown active is the one at the cursor of a scheduled simulation.
\<close>

definition sim_inv :: "page \<Rightarrow> bool" where
  "sim_inv s \<longleftrightarrow> timers_owned s \<and>
     (\<exists>h e. timers s h = Some (SimTimer e) \<and> only_active_at s (currentStepIndex e))"

subsection \<open>The component\<close>

text \<open>
  The timers of the component that carry the run forward: the step timeout, the timeout
  that starts the next step and the call of \<open>onComplete\<close>. The progress interval
  only writes the progress.
\<close>

definition is_chain :: "ptimer \<Rightarrow> bool" where
  "is_chain t = (case t of ProgressTick _ _ _ \<Rightarrow> False | _ \<Rightarrow> True)"

definition no_chain :: "pipeline \<Rightarrow> bool" where
  "no_chain s \<longleftrightarrow> (\<forall>h t. pending s h = Some t \<longrightarrow> \<not> is_chain t)"

text \<open>
  One effect run has at most one pending timer that carries it forward; \<open>onComplete\<close>
  has been called at most once, and then no such timer is left; the call is scheduled only
  with the status completed; handles are never reused.
\<close>

definition chain_inv :: "pipeline \<Rightarrow> bool" where
  "chain_inv s \<longleftrightarrow>
     (\<forall>h h' t t'. pending s h = Some t \<and> pending s h' = Some t' \<and> is_chain t \<and> is_chain t' \<longrightarrow> h = h') \<and>
     onComplete_calls s \<le> 1 \<and>
     (onComplete_calls s = 1 \<longrightarrow> no_chain s) \<and>
     (0 < onComplete_calls s \<or> (\<exists>h. pending s h = Some CallOnComplete)
        \<longrightarrow> status s = ''Completed'' \<and> isCompleted s) \<and>
     (\<forall>h t. pending s h = Some t \<longrightarrow> h \<le> next_id s)"

section \<open>Facts about the page script\<close>

lemma controls_fields:
  assumes "controls s' = controls s"
  shows "timers s' = timers s" "progressInterval s' = progressInterval s"
    "simulationInterval s' = simulationInterval s" "next_handle s' = next_handle s"
    "inflight s' = inflight s" "shown_errors s' = shown_errors s"
    "displayed_results s' = displayed_results s" "processing_hidden s' = processing_hidden s"
  using assms by (simp_all add: controls_def)

lemma controls_updateStepStatus [simp]: "controls (updateStepStatus n st s) = controls s"
  by (simp add: updateStepStatus_def controls_def split: option.splits)

lemma bar_updateStepStatus [simp]: "progress_bar (updateStepStatus n st s) = progress_bar s"
  by (simp add: updateStepStatus_def split: option.splits)

lemma controls_updateStepStatus_at [simp]: "controls (updateStepStatus_at i st s) = controls s"
  by (simp add: updateStepStatus_at_def split: option.splits)

lemma bar_updateStepStatus_at [simp]: "progress_bar (updateStepStatus_at i st s) = progress_bar s"
  by (simp add: updateStepStatus_at_def split: option.splits)

lemma fold_keeps:
  assumes "\<And>x s. f (g x s) = f s"
  shows "f (fold g xs s) = f s"
  using assms by (induction xs arbitrary: s) simp_all

lemma controls_set_bar [simp]: "controls (set_bar p s) = controls s"
  by (simp add: set_bar_def controls_def split: option.splits)

lemma dom_set_bar [simp]: "steps_dom (set_bar p s) = steps_dom s"
  by (simp add: set_bar_def split: option.splits)

lemma bar_set_bar: "progress_bar (set_bar p s) = map_option (\<lambda>_. \<lparr>width = p, text_pct = js_round p\<rparr>) (progress_bar s)"
  by (simp add: set_bar_def split: option.splits)

lemma controls_updateProgress [simp]: "controls (updateProgress t s) = controls s"
  by (simp add: updateProgress_def Let_def fold_keeps [where f = controls] split: option.splits)

lemma bar_updateProgress:
  "progress_bar (updateProgress t s) =
     map_option (\<lambda>_. \<lparr>width = min (max (progress_or_0 t) 0) 100, text_pct = js_round (min (max (progress_or_0 t) 0) 100)\<rparr>) (progress_bar s)"
  by (simp add: updateProgress_def Let_def fold_keeps [where f = progress_bar] bar_set_bar split: option.splits)

lemma controls_runSimulation [simp]: "controls (snd (runSimulation now now2 (e, s))) = controls s"
  by (simp add: runSimulation_def Let_def split: prod.splits)

lemma timers_owned_controls: "controls s' = controls s \<Longrightarrow> timers_owned s' = timers_owned s"
  by (simp add: controls_def timers_owned_def)

lemma timers_owned_empty: "timers s = Map.empty \<Longrightarrow> timers_owned s"
  by (simp add: timers_owned_def)

lemma clear_simulation_owned:
  assumes "timers_owned s"
  shows "timers_owned (clear_simulation s)"
    and "simulationInterval (clear_simulation s) = None"
    and "\<And>h e. timers (clear_simulation s) h \<noteq> Some (SimTimer e)"
  using assms by (auto simp: timers_owned_def clear_simulation_def split: option.splits)

lemma clear_polling_owned:
  assumes "timers_owned s"
  shows "timers_owned (clear_polling s)"
    and "progressInterval (clear_polling s) = None"
    and "\<And>h tid. timers (clear_polling s) h \<noteq> Some (PollTimer tid)"
  using assms by (auto simp: timers_owned_def clear_polling_def split: option.splits)

lemma clear_simulation_keeps:
  "progressInterval (clear_simulation s) = progressInterval s"
  "next_handle (clear_simulation s) = next_handle s"
  "inflight (clear_simulation s) = inflight s"
  "shown_errors (clear_simulation s) = shown_errors s"
  "displayed_results (clear_simulation s) = displayed_results s"
  "processing_hidden (clear_simulation s) = processing_hidden s"
  "steps_dom (clear_simulation s) = steps_dom s"
  "progress_bar (clear_simulation s) = progress_bar s"
  by (simp_all add: clear_simulation_def split: option.splits)

lemma clear_polling_keeps:
  "simulationInterval (clear_polling s) = simulationInterval s"
  "next_handle (clear_polling s) = next_handle s"
  "inflight (clear_polling s) = inflight s"
  "shown_errors (clear_polling s) = shown_errors s"
  "displayed_results (clear_polling s) = displayed_results s"
  "processing_hidden (clear_polling s) = processing_hidden s"
  "steps_dom (clear_polling s) = steps_dom s"
  "progress_bar (clear_polling s) = progress_bar s"
  by (simp_all add: clear_polling_def split: option.splits)

lemma clear_polling_no_sim:
  "(\<And>h e. timers s h \<noteq> Some (SimTimer e)) \<Longrightarrow> timers (clear_polling s) h \<noteq> Some (SimTimer e)"
  by (simp add: clear_polling_def split: option.splits)

lemma clear_simulation_no_poll:
  "(\<And>h tid. timers s h \<noteq> Some (PollTimer tid)) \<Longrightarrow> timers (clear_simulation s) h \<noteq> Some (PollTimer tid)"
  by (simp add: clear_simulation_def split: option.splits)

lemma no_timers_left:
  assumes "\<And>h e. timers s h \<noteq> Some (SimTimer e)" and "\<And>h tid. timers s h \<noteq> Some (PollTimer tid)"
  shows "timers s = Map.empty"
proof
  fix h
  show "timers s h = None"
  proof (cases "timers s h")
    case None then show ?thesis by simp
  next
    case (Some t)
    with assms show ?thesis by (cases t) auto
  qed
qed

lemma clear_both_empty:
  assumes "timers_owned s"
  shows "timers (clear_simulation (clear_polling s)) = Map.empty"
proof (rule no_timers_left)
  fix h e
  show "timers (clear_simulation (clear_polling s)) h \<noteq> Some (SimTimer e)"
    using clear_simulation_owned(3) [OF clear_polling_owned(1) [OF assms]] .
next
  fix h tid
  show "timers (clear_simulation (clear_polling s)) h \<noteq> Some (PollTimer tid)"
    using clear_simulation_no_poll [of "clear_polling s"] clear_polling_owned(3) [OF assms] by blast
qed

lemma runSimulation_controls_dest:
  "runSimulation a b (e, s) = (e', s') \<Longrightarrow> controls s' = controls s"
  using controls_runSimulation [of a b e s] by simp

lemma controls_ensure_feedback:
  "controls (ensure_feedback c) =
     (timers c, progressInterval c, simulationInterval c, next_handle c, inflight c,
      shown_errors c, displayed_results c, map_option (\<lambda>_. False) (processing_hidden c))"
proof -
  define sb where "sb = (case processing_hidden c of None \<Rightarrow> c | Some _ \<Rightarrow> c\<lparr>processing_hidden := Some False\<rparr>)"
  define sc where "sc = (case steps_dom sb (steps ! 0) of
                  None \<Rightarrow> sb
                | Some cs \<Rightarrow> if Active \<notin> cs then updateStepStatus (steps ! 0) Active sb else sb)"
  have cb: "controls sb = (timers c, progressInterval c, simulationInterval c, next_handle c, inflight c,
                 shown_errors c, displayed_results c, map_option (\<lambda>_. False) (processing_hidden c))"
    by (simp add: sb_def controls_def split: option.splits)
  have cc: "controls sc = controls sb"
    by (simp add: sc_def split: option.splits)
  have "controls (ensure_feedback c) = controls sc"
    unfolding ensure_feedback_def Let_def sb_def [symmetric] sc_def [symmetric]
    by (simp add: controls_def split: option.splits)
  then show ?thesis using cb cc by simp
qed

lemma start_unfold:
  "startProgressPolling taskId t0 t1 t2 s =
     (let c = clear_simulation (clear_polling s);
          r = runSimulation t1 t2
                (\<lparr>currentStepIndex = 0, stepStartTime = t0, lastProgress = 0, isTransitioning = False\<rparr>,
                 ensure_feedback c);
          n = next_handle (snd r)
      in (snd r)\<lparr>timers := (timers (snd r))(Suc n \<mapsto> SimTimer (fst r), Suc (Suc n) \<mapsto> PollTimer taskId),
                 next_handle := Suc (Suc n),
                 simulationInterval := Some (Suc n),
                 progressInterval := Some (Suc (Suc n))\<rparr>)"
  by (simp add: startProgressPolling_def setInterval_def Let_def split: prod.splits)

lemma start_controls:
  "\<exists>e. controls (startProgressPolling taskId t0 t1 t2 s) =
     (let c = clear_simulation (clear_polling s); n = next_handle c
      in ((timers c)(Suc n \<mapsto> SimTimer e, Suc (Suc n) \<mapsto> PollTimer taskId),
          Some (Suc (Suc n)), Some (Suc n), Suc (Suc n), inflight c, shown_errors c,
          displayed_results c, map_option (\<lambda>_. False) (processing_hidden c)))"
proof -
  define c where "c = clear_simulation (clear_polling s)"
  define r where "r = runSimulation t1 t2
                (\<lparr>currentStepIndex = 0, stepStartTime = t0, lastProgress = 0, isTransitioning = False\<rparr>,
                 ensure_feedback c)"
  have cr: "controls (snd r) = controls (ensure_feedback c)"
    unfolding r_def by (rule controls_runSimulation)
  note f = controls_fields [OF cr]
  have "controls (startProgressPolling taskId t0 t1 t2 s) =
     ((timers c)(Suc (next_handle c) \<mapsto> SimTimer (fst r), Suc (Suc (next_handle c)) \<mapsto> PollTimer taskId),
          Some (Suc (Suc (next_handle c))), Some (Suc (next_handle c)), Suc (Suc (next_handle c)),
          inflight c, shown_errors c,
          displayed_results c, map_option (\<lambda>_. False) (processing_hidden c))"
    unfolding start_unfold Let_def c_def [symmetric] r_def [symmetric]
    using f controls_ensure_feedback [of c] by (simp add: controls_def)
  then show ?thesis unfolding c_def Let_def by blast
qed

lemma start_owned:
  assumes "timers_owned s"
  shows "timers_owned (startProgressPolling taskId t0 t1 t2 s)"
proof -
  obtain e where c: "controls (startProgressPolling taskId t0 t1 t2 s) =
     (let c = clear_simulation (clear_polling s); n = next_handle c
      in ((timers c)(Suc n \<mapsto> SimTimer e, Suc (Suc n) \<mapsto> PollTimer taskId),
          Some (Suc (Suc n)), Some (Suc n), Suc (Suc n), inflight c, shown_errors c,
          displayed_results c, map_option (\<lambda>_. False) (processing_hidden c)))"
    using start_controls by blast
  show ?thesis
    using c clear_both_empty [OF assms]
    by (simp add: controls_def timers_owned_def Let_def)
qed

lemma start_drops_old_timers:
  assumes "timers_owned s" and "timers s h = Some t"
  shows "timers (startProgressPolling taskId t0 t1 t2 s) h = None"
proof -
  obtain e where c: "controls (startProgressPolling taskId t0 t1 t2 s) =
     (let c = clear_simulation (clear_polling s); n = next_handle c
      in ((timers c)(Suc n \<mapsto> SimTimer e, Suc (Suc n) \<mapsto> PollTimer taskId),
          Some (Suc (Suc n)), Some (Suc n), Suc (Suc n), inflight c, shown_errors c,
          displayed_results c, map_option (\<lambda>_. False) (processing_hidden c)))"
    using start_controls by blast
  have "h \<le> next_handle s" using assms by (auto simp: timers_owned_def)
  then show ?thesis
    using c clear_both_empty [OF assms(1)]
    by (simp add: controls_def Let_def clear_simulation_keeps clear_polling_keeps)
qed

lemma sim_fire_owned: "timers_owned s \<Longrightarrow> timers_owned (sim_fire h now now2 s)"
proof -
  assume o: "timers_owned s"
  show ?thesis
  proof (cases "timers s h")
    case None
    then show ?thesis using o by (simp add: sim_fire_def)
  next
    case (Some t)
    show ?thesis
    proof (cases t)
      case (PollTimer x)
      with Some o show ?thesis by (simp add: sim_fire_def)
    next
      case (SimTimer e)
      obtain e' s' where rs: "runSimulation now now2 (e, s) = (e', s')"
        by (cases "runSimulation now now2 (e, s)")
      have "controls s' = controls s" using runSimulation_controls_dest [OF rs] .
      then show ?thesis
        using o Some SimTimer rs
        by (auto simp: sim_fire_def timers_owned_def controls_def)
    qed
  qed
qed

lemma poll_fire_owned: "timers_owned s \<Longrightarrow> timers_owned (poll_fire h s)"
  by (auto simp: poll_fire_def timers_owned_def split: option.splits timer.splits)

lemma controls_cong_clear_polling:
  "controls s' = controls s \<Longrightarrow> controls (clear_polling s') = controls (clear_polling s)"
  by (simp add: controls_def clear_polling_def split: option.splits)

lemma controls_cong_clear_simulation:
  "controls s' = controls s \<Longrightarrow> controls (clear_simulation s') = controls (clear_simulation s)"
  by (simp add: controls_def clear_simulation_def split: option.splits)

lemma controls_apply_progress:
  "controls (apply_progress t s) = controls (if 0 < progress_or_0 t then clear_simulation s else s)"
  by (simp add: apply_progress_def Let_def fold_keeps [where f = controls])

lemma apply_progress_owned: "timers_owned s \<Longrightarrow> timers_owned (apply_progress t s)"
  using timers_owned_controls [OF controls_apply_progress [of t s]] clear_simulation_owned(1) [of s]
  by (simp split: if_splits)

lemma no_sim_controls: "controls s' = controls s \<Longrightarrow> no_sim s' = no_sim s"
  by (simp add: controls_def no_sim_def)

lemma apply_progress_no_sim:
  assumes "timers_owned s" and "0 < progress_or_0 t"
  shows "no_sim (apply_progress t s)" and "simulationInterval (apply_progress t s) = None"
proof -
  have c: "controls (apply_progress t s) = controls (clear_simulation s)"
    using assms(2) by (simp add: controls_apply_progress)
  show "no_sim (apply_progress t s)"
    using no_sim_controls [OF c] clear_simulation_owned(3) [OF assms(1)] by (simp add: no_sim_def)
  show "simulationInterval (apply_progress t s) = None"
    using c clear_simulation_owned(2) [OF assms(1)] by (simp add: controls_def)
qed

lemma clear_simulation_no_sim: "no_sim s \<Longrightarrow> no_sim (clear_simulation s)"
  by (simp add: no_sim_def clear_simulation_def split: option.splits)

lemma clear_polling_no_sim': "no_sim s \<Longrightarrow> no_sim (clear_polling s)"
  by (simp add: no_sim_def clear_polling_def split: option.splits)

lemma controls_apply_status:
  "controls (apply_status t s) =
     controls (if t_status t = ''completed''
      then (case t_result t of
              None \<Rightarrow> clear_polling (clear_simulation s)
            | Some r \<Rightarrow> hideProcessing (displayResults r (clear_polling (clear_simulation s))))
      else if t_status t = ''failed''
      then hideProcessing (showError (error_or_default t) (clear_polling (clear_simulation s)))
      else s)"
proof -
  have "controls (clear_polling (updateProgress (t\<lparr>t_progress := Some 100\<rparr>)
           (fold (\<lambda>n. updateStepStatus n Completed) steps (clear_simulation s))))
        = controls (clear_polling (clear_simulation s))"
    by (rule controls_cong_clear_polling) (simp add: fold_keeps [where f = controls])
  then show ?thesis
    by (simp add: apply_status_def Let_def controls_def hideProcessing_def displayResults_def split: option.splits)
qed

lemma hide_show_owned:
  "timers_owned (hideProcessing (displayResults r s)) = timers_owned s"
  "timers_owned (hideProcessing (showError m s)) = timers_owned s"
  "no_sim (hideProcessing (displayResults r s)) = no_sim s"
  "no_sim (hideProcessing (showError m s)) = no_sim s"
  by (simp_all add: timers_owned_def no_sim_def hideProcessing_def displayResults_def showError_def split: option.splits)

lemma apply_status_owned: "timers_owned s \<Longrightarrow> timers_owned (apply_status t s)"
  using timers_owned_controls [OF controls_apply_status [of t s]]
  by (auto split: if_splits option.splits simp: hide_show_owned clear_polling_owned(1) clear_simulation_owned(1))

lemma apply_status_no_sim: "no_sim s \<Longrightarrow> no_sim (apply_status t s)"
  using no_sim_controls [OF controls_apply_status [of t s]]
  by (auto split: if_splits option.splits simp: hide_show_owned clear_polling_no_sim' clear_simulation_no_sim)

lemma handle_task_owned: "timers_owned s \<Longrightarrow> timers_owned (handle_task t s)"
  by (simp add: handle_task_def apply_status_owned apply_progress_owned)

lemma poll_settle_owned: "timers_owned s \<Longrightarrow> timers_owned (poll_settle r s)"
proof -
  assume o: "timers_owned s"
  have "timers_owned (s\<lparr>inflight := inflight s - 1\<rparr>)" using o by (simp add: timers_owned_def)
  then show ?thesis
    using o by (cases r) (simp_all add: poll_settle_def Let_def handle_task_owned)
qed

lemma step_owned: "timers_owned s \<Longrightarrow> timers_owned (step ev s)"
  by (cases ev) (simp_all add: start_owned sim_fire_owned poll_fire_owned poll_settle_owned)

lemma run_owned: "timers_owned s \<Longrightarrow> timers_owned (run evs s)"
  unfolding run_def by (induction evs arbitrary: s) (simp_all add: step_owned)

lemma run_append: "run (xs @ ys) s = run ys (run xs s)"
  by (simp add: run_def)

lemma sim_fire_no_sim: "no_sim s \<Longrightarrow> sim_fire h now now2 s = s"
  by (auto simp: no_sim_def sim_fire_def split: option.splits timer.splits)

lemma poll_fire_no_sim: "no_sim s \<Longrightarrow> no_sim (poll_fire h s)"
  by (auto simp: no_sim_def poll_fire_def split: option.splits timer.splits)

lemma apply_progress_keeps_no_sim: "no_sim s \<Longrightarrow> no_sim (apply_progress t s)"
  using no_sim_controls [OF controls_apply_progress [of t s]]
  by (auto split: if_splits simp: clear_simulation_no_sim)

lemma poll_settle_no_sim: "no_sim s \<Longrightarrow> no_sim (poll_settle r s)"
proof -
  assume o: "no_sim s"
  have "no_sim (s\<lparr>inflight := inflight s - 1\<rparr>)" using o by (simp add: no_sim_def)
  then show ?thesis
    using o by (cases r) (simp_all add: poll_settle_def Let_def handle_task_def apply_status_no_sim apply_progress_keeps_no_sim)
qed

lemma step_no_sim: "no_sim s \<Longrightarrow> \<not> is_Start ev \<Longrightarrow> no_sim (step ev s)"
  by (cases ev) (simp_all add: is_Start_def sim_fire_no_sim poll_fire_no_sim poll_settle_no_sim)

lemma run_no_sim: "no_sim s \<Longrightarrow> \<forall>ev\<in>set evs. \<not> is_Start ev \<Longrightarrow> no_sim (run evs s)"
  unfolding run_def by (induction evs arbitrary: s) (simp_all add: step_no_sim)

lemma hide_show_keeps:
  "simulationInterval (hideProcessing s) = simulationInterval s"
  "progressInterval (hideProcessing s) = progressInterval s"
  "timers (hideProcessing s) = timers s"
  "inflight (hideProcessing s) = inflight s"
  "shown_errors (hideProcessing s) = shown_errors s"
  "displayed_results (hideProcessing s) = displayed_results s"
  "steps_dom (hideProcessing s) = steps_dom s"
  "progress_bar (hideProcessing s) = progress_bar s"
  "simulationInterval (showError m s) = simulationInterval s"
  "progressInterval (showError m s) = progressInterval s"
  "timers (showError m s) = timers s"
  "inflight (showError m s) = inflight s"
  "displayed_results (showError m s) = displayed_results s"
  "steps_dom (showError m s) = steps_dom s"
  "progress_bar (showError m s) = progress_bar s"
  "simulationInterval (displayResults r s) = simulationInterval s"
  "progressInterval (displayResults r s) = progressInterval s"
  "timers (displayResults r s) = timers s"
  "inflight (displayResults r s) = inflight s"
  "shown_errors (displayResults r s) = shown_errors s"
  "steps_dom (displayResults r s) = steps_dom s"
  "progress_bar (displayResults r s) = progress_bar s"
  by (simp_all add: hideProcessing_def showError_def displayResults_def split: option.splits)

lemma clear_simulation_idem: "simulationInterval s = None \<Longrightarrow> clear_simulation s = s"
  by (simp add: clear_simulation_def)

lemma apply_status_simulationInterval:
  assumes "simulationInterval s = None"
  shows "simulationInterval (apply_status t s) = None"
  using controls_fields(3) [OF controls_apply_status [of t s]] assms
  by (simp add: hide_show_keeps clear_polling_keeps clear_simulation_idem split: option.splits)


lemma quiet_step:
  assumes "timers s = Map.empty" and "inflight s = 0" and "\<not> is_Start ev"
  shows "step ev s = s"
  using assms by (cases ev) (simp_all add: is_Start_def sim_fire_def poll_fire_def poll_settle_def)

lemma quiet_run:
  assumes "timers s = Map.empty" and "inflight s = 0" and "\<forall>ev\<in>set evs. \<not> is_Start ev"
  shows "run evs s = s"
  using assms unfolding run_def by (induction evs) (simp_all add: quiet_step)

lemma dom_apply_status_failed:
  "t_status t = ''failed'' \<Longrightarrow> steps_dom (apply_status t s) = steps_dom s"
  by (simp add: apply_status_def hide_show_keeps clear_polling_keeps clear_simulation_keeps)

lemma apply_progress_absent: "progress_or_0 t \<le> 0 \<Longrightarrow> apply_progress t s = s"
  by (simp add: apply_progress_def)

lemma failed_controls:
  assumes "t_status t = ''failed''"
  shows "controls (handle_task t s) =
         controls (hideProcessing (showError (error_or_default t)
                    (clear_polling (clear_simulation (apply_progress t s)))))"
  using assms controls_apply_status [of t "apply_progress t s"] by (simp add: handle_task_def)

lemma clear_simulation_twice: "clear_simulation (clear_simulation s) = clear_simulation s"
  by (simp add: clear_simulation_def split: option.splits)

lemma failed_effect:
  assumes o: "timers_owned s" and f: "t_status t = ''failed''"
  shows "timers (handle_task t s) = Map.empty"
    and "simulationInterval (handle_task t s) = None"
    and "progressInterval (handle_task t s) = None"
    and "shown_errors (handle_task t s) = shown_errors s @ [error_or_default t]"
    and "displayed_results (handle_task t s) = displayed_results s"
    and "inflight (handle_task t s) = inflight s"
proof -
  let ?a = "apply_progress t s"
  let ?c = "clear_polling (clear_simulation ?a)"
  have oa: "timers_owned ?a" using apply_progress_owned [OF o] .
  have oc: "timers_owned (clear_simulation ?a)" using clear_simulation_owned(1) [OF oa] .
  have ns: "\<And>h e. timers (clear_simulation ?a) h \<noteq> Some (SimTimer e)"
    using clear_simulation_owned(3) [OF oa] .
  have np: "\<And>h tid. timers ?c h \<noteq> Some (PollTimer tid)"
    using clear_polling_owned(3) [OF oc] .
  have ns': "\<And>h e. timers ?c h \<noteq> Some (SimTimer e)"
    using clear_polling_no_sim [of "clear_simulation ?a"] ns by blast
  have e: "timers ?c = Map.empty" using no_timers_left [of ?c] ns' np by blast
  have ca: "controls ?a = controls (if 0 < progress_or_0 t then clear_simulation s else s)"
    using controls_apply_progress .
  note fc = controls_fields [OF failed_controls [OF f, of s]]
  show "timers (handle_task t s) = Map.empty"
    using fc(1) e by (simp add: hide_show_keeps)
  show "simulationInterval (handle_task t s) = None"
    using fc(3) clear_simulation_owned(2) [OF oa] by (simp add: hide_show_keeps clear_polling_keeps)
  show "progressInterval (handle_task t s) = None"
    using fc(2) clear_polling_owned(2) [OF oc] by (simp add: hide_show_keeps)
  show "shown_errors (handle_task t s) = shown_errors s @ [error_or_default t]"
    using fc(6) controls_fields(6) [OF ca]
    by (simp add: hideProcessing_def showError_def clear_polling_keeps clear_simulation_keeps split: option.splits if_splits)
  show "displayed_results (handle_task t s) = displayed_results s"
    using fc(7) controls_fields(7) [OF ca]
    by (simp add: hide_show_keeps clear_polling_keeps clear_simulation_keeps split: if_splits)
  show "inflight (handle_task t s) = inflight s"
    using fc(5) controls_fields(5) [OF ca]
    by (simp add: hide_show_keeps clear_polling_keeps clear_simulation_keeps split: if_splits)
qed

subsection \<open>The bar and the step elements under ticks and responses\<close>

lemma bar_fold_at: "progress_bar (fold (\<lambda>i. updateStepStatus_at i st) is s) = progress_bar s"
  by (rule fold_keeps) simp

lemma bar_apply_progress:
  assumes "0 < progress_or_0 t"
  shows "progress_bar (apply_progress t s) =
         map_option (\<lambda>_. \<lparr>width = min (progress_or_0 t) 100, text_pct = js_round (min (progress_or_0 t) 100)\<rparr>)
           (progress_bar s)"
proof -
  have m: "max (progress_or_0 t) 0 = progress_or_0 t" using assms by simp
  show ?thesis
    using assms
    by (simp add: apply_progress_def Let_def bar_updateProgress bar_fold_at clear_simulation_keeps m)
qed

lemma sim_progress_le_95: "sim_progress idx elapsed \<le> 95"
  by (simp add: sim_progress_def Let_def)

lemma sim_progress_spec: "sim_progress idx elapsed = spec_overallProgress idx elapsed"
proof -
  define x where "x = real_of_int elapsed / real_of_int stepDuration"
  have inner: "real idx / 6 * 100 + min (x * (100 / 6)) (100 / 6) = (real idx + min x 1) / 6 * 100"
  proof (cases "x \<le> 1")
    case True
    then have "min (x * (100 / 6)) (100 / 6) = x * (100 / 6)" and "min x 1 = x" by simp_all
    then show ?thesis by (simp add: field_simps)
  next
    case False
    then have "min (x * (100 / 6)) (100 / 6) = 100 / 6" and "min x 1 = 1" by simp_all
    then show ?thesis by (simp add: field_simps)
  qed
  have len: "real (length steps) = 6" by (simp add: steps_def)
  show ?thesis
    unfolding sim_progress_def spec_overallProgress_def Let_def len x_def [symmetric] inner
    by (rule refl)
qed

lemma runSimulation_plain_tick:
  assumes "now - stepStartTime e < stepDuration"
  shows "runSimulation now now2 (e, s) =
     (let p = (if sim_progress (currentStepIndex e) (now - stepStartTime e) \<le> lastProgress e
               then lastProgress e + 8 / 10
               else sim_progress (currentStepIndex e) (now - stepStartTime e))
      in (e\<lparr>lastProgress := p\<rparr>, set_bar p s))"
  using assms by (simp add: runSimulation_def Let_def)

lemma runSimulation_transition_tick:
  assumes "stepDuration \<le> now - stepStartTime e" and "currentStepIndex e + 2 < length steps"
    and "\<not> isTransitioning e"
  shows "progress_bar (snd (runSimulation now now2 (e, s))) =
     progress_bar (set_bar (if sim_progress (currentStepIndex e) (now - stepStartTime e) \<le> lastProgress e
               then lastProgress e + 8 / 10
               else sim_progress (currentStepIndex e) (now - stepStartTime e)) s)"
  using assms by (simp add: runSimulation_def Let_def steps_def)

lemma status_classes_all: "cs - {Active, Completed, Pending} = {}"
proof -
  have "x \<in> {Active, Completed, Pending}" for x by (cases x) simp_all
  then show ?thesis by blast
qed

lemma dom_updateStepStatus:
  "steps_dom (updateStepStatus m st s) n =
     (if n = m \<and> steps_dom s m \<noteq> None
      then Some (if st = Active \<or> st = Completed then {st} else {})
      else steps_dom s n)"
  by (auto simp: updateStepStatus_def status_classes_all split: option.splits)

lemma step_at_last: "step_at (length steps - 1) = Some ''output''"
  by (simp add: step_at_def steps_def)

lemma runSimulation_end_tick:
  assumes "currentStepIndex e = length steps - 1" and "stepDuration \<le> now - stepStartTime e"
  shows "snd (runSimulation now now2 (e, s)) =
     set_bar 100 (updateStepStatus ''output'' Completed
       (set_bar (if sim_progress (currentStepIndex e) (now - stepStartTime e) \<le> lastProgress e
               then lastProgress e + 8 / 10
               else sim_progress (currentStepIndex e) (now - stepStartTime e)) s))"
  using assms step_at_last by (simp add: runSimulation_def Let_def updateStepStatus_at_def)

lemma sim_fire_live:
  assumes "timers s h = Some (SimTimer e)"
  shows "sim_fire h now now2 s =
     (snd (runSimulation now now2 (e, s)))\<lparr>timers := (timers (snd (runSimulation now now2 (e, s))))
         (h \<mapsto> SimTimer (fst (runSimulation now now2 (e, s))))\<rparr>"
  using assms by (simp add: sim_fire_def split: prod.splits)

lemma active_in_updateStepStatus:
  "active_in (updateStepStatus m st s) n =
     (if n = m \<and> steps_dom s m \<noteq> None then st = Active else active_in s n)"
  by (auto simp: active_in_def dom_updateStepStatus)

lemma active_in_dom: "steps_dom s' = steps_dom s \<Longrightarrow> active_in s' = active_in s"
  by (rule ext) (simp add: active_in_def)

lemma only_active_dom: "steps_dom s' = steps_dom s \<Longrightarrow> only_active_at s' i = only_active_at s i"
  using active_in_dom [of s' s] by (simp add: only_active_at_def)

lemma active_count_dom: "steps_dom s' = steps_dom s \<Longrightarrow> active_count s' = active_count s"
  using active_in_dom [of s' s] by (simp add: active_count_def)

lemma distinct_steps: "distinct steps"
  by (simp add: steps_def)

lemma step_at_in_steps: "step_at i = Some n \<Longrightarrow> n \<in> set steps"
  by (auto simp: step_at_def split: if_splits)

lemma step_at_inj: "step_at i = Some n \<Longrightarrow> step_at j = Some n \<Longrightarrow> i = j"
  using distinct_steps by (auto simp: step_at_def nth_eq_iff_index_eq split: if_splits)

lemma completing_keeps_only_active:
  assumes "only_active_at s i"
  shows "only_active_at (updateStepStatus_at k Completed s) i"
proof (cases "step_at k")
  case None
  then show ?thesis using assms by (simp add: updateStepStatus_at_def)
next
  case (Some m)
  have "active_in (updateStepStatus m Completed s) n \<Longrightarrow> active_in s n" for n
    by (simp add: active_in_updateStepStatus split: if_splits)
  then show ?thesis
    using assms by (simp add: updateStepStatus_at_def Some only_active_at_def)
qed

lemma completing_current_clears:
  assumes "only_active_at s i" and "n \<in> set steps"
  shows "\<not> active_in (updateStepStatus_at i Completed s) n"
proof (cases "step_at i")
  case None
  with assms show ?thesis by (auto simp: only_active_at_def updateStepStatus_at_def)
next
  case (Some m)
  show ?thesis
  proof
    assume "active_in (updateStepStatus_at i Completed s) n"
    then have act: "active_in (updateStepStatus m Completed s) n"
      by (simp add: updateStepStatus_at_def Some)
    then have nm: "\<not> (n = m \<and> steps_dom s m \<noteq> None)" and old: "active_in s n"
      by (simp_all add: active_in_updateStepStatus split: if_splits)
    from old assms have "step_at i = Some n" by (simp add: only_active_at_def)
    with Some have "n = m" by simp
    with nm have "steps_dom s n = None" by simp
    with old show False by (simp add: active_in_def)
  qed
qed

lemma activating_gives_only_active:
  assumes "\<forall>n\<in>set steps. \<not> active_in s n"
  shows "only_active_at (updateStepStatus_at j Active s) j"
proof (cases "step_at j")
  case None
  then show ?thesis using assms by (simp add: updateStepStatus_at_def only_active_at_def)
next
  case (Some m)
  show ?thesis
    using assms by (simp add: updateStepStatus_at_def Some only_active_at_def active_in_updateStepStatus)
qed

lemma activating_again_keeps:
  assumes "only_active_at s j"
  shows "only_active_at (updateStepStatus_at j Active s) j"
proof (cases "step_at j")
  case None
  then show ?thesis using assms by (simp add: updateStepStatus_at_def)
next
  case (Some m)
  have "step_at j = Some n" if "n \<in> set steps" and "active_in (updateStepStatus m Active s) n" for n
  proof (cases "n = m")
    case True
    then show ?thesis using Some by simp
  next
    case False
    with that(2) have "active_in s n" by (simp add: active_in_updateStepStatus)
    with assms that(1) show ?thesis unfolding only_active_at_def by blast
  qed
  then show ?thesis
    unfolding only_active_at_def updateStepStatus_at_def Some by simp
qed

lemma only_active_set_bar [simp]: "only_active_at (set_bar p s) i = only_active_at s i"
  by (rule only_active_dom) simp

lemma runSimulation_only_active:
  assumes "only_active_at s (currentStepIndex e)"
  shows "only_active_at (snd (runSimulation now now2 (e, s))) (currentStepIndex (fst (runSimulation now now2 (e, s))))"
proof -
  define p where "p = (if sim_progress (currentStepIndex e) (now - stepStartTime e) \<le> lastProgress e
               then lastProgress e + 8 / 10
               else sim_progress (currentStepIndex e) (now - stepStartTime e))"
  define s1 where "s1 = set_bar p s"
  define i where "i = currentStepIndex e"
  have o1: "only_active_at s1 i" using assms by (simp add: s1_def i_def)
  define tr where "tr \<longleftrightarrow> stepDuration \<le> now - stepStartTime e \<and> i < length steps - 1 \<and> \<not> isTransitioning e"
  define s2 where "s2 = (if tr then updateStepStatus_at (i + 1) Active (updateStepStatus_at (i + 1) Active
                                   (updateStepStatus_at i Completed s1)) else s1)"
  define i2 where "i2 = (if tr then i + 1 else i)"
  have o2: "only_active_at s2 i2"
  proof (cases tr)
    case False
    then show ?thesis using o1 by (simp add: s2_def i2_def)
  next
    case True
    have "\<forall>n\<in>set steps. \<not> active_in (updateStepStatus_at i Completed s1) n"
      using completing_current_clears [OF o1] by blast
    then have "only_active_at (updateStepStatus_at (i + 1) Active (updateStepStatus_at i Completed s1)) (i + 1)"
      by (rule activating_gives_only_active)
    then have "only_active_at (updateStepStatus_at (i + 1) Active (updateStepStatus_at (i + 1) Active
                                   (updateStepStatus_at i Completed s1))) (i + 1)"
      by (rule activating_again_keeps)
    then show ?thesis using True by (simp add: s2_def i2_def)
  qed
  define fin where "fin \<longleftrightarrow> length steps - 1 \<le> i2 \<and> stepDuration \<le> now - stepStartTime e"
  have r: "snd (runSimulation now now2 (e, s)) =
             (if fin then set_bar 100 (updateStepStatus_at i2 Completed s2) else s2)"
    and ri: "currentStepIndex (fst (runSimulation now now2 (e, s))) = i2"
    unfolding fin_def i2_def s2_def tr_def s1_def p_def i_def
    by (simp_all add: runSimulation_def Let_def)
  show ?thesis
    unfolding r ri using o2 completing_keeps_only_active [OF o2, of i2] by simp
qed

lemma only_active_count:
  assumes "only_active_at s i"
  shows "active_count s \<le> 1"
proof -
  let ?f = "filter (active_in s) steps"
  have d: "distinct ?f" using distinct_steps by simp
  have sub: "set ?f \<subseteq> {n. step_at i = Some n}"
    using assms by (auto simp: only_active_at_def)
  have "{n. step_at i = Some n} \<subseteq> {the (step_at i)}" by auto
  with sub have "set ?f \<subseteq> {the (step_at i)}" by blast
  then have "card (set ?f) \<le> card {the (step_at i)}" by (intro card_mono) simp_all
  then have "card (set ?f) \<le> 1" by simp
  then show ?thesis using distinct_card [OF d] by (simp add: active_count_def)
qed

lemma step_at_0: "step_at 0 = Some (steps ! 0)"
  by (simp add: step_at_def steps_def)

lemma ensure_feedback_only_active:
  assumes "only_active_at c 0"
  shows "only_active_at (ensure_feedback c) 0"
proof -
  define sb where "sb = (case processing_hidden c of None \<Rightarrow> c | Some _ \<Rightarrow> c\<lparr>processing_hidden := Some False\<rparr>)"
  define sc where "sc = (case steps_dom sb (steps ! 0) of
                  None \<Rightarrow> sb
                | Some cs \<Rightarrow> if Active \<notin> cs then updateStepStatus (steps ! 0) Active sb else sb)"
  have "steps_dom sb = steps_dom c" by (simp add: sb_def split: option.splits)
  then have ob: "only_active_at sb 0" using assms only_active_dom by blast
  have up: "updateStepStatus (steps ! 0) Active sb = updateStepStatus_at 0 Active sb"
    by (simp add: updateStepStatus_at_def step_at_0)
  have oc: "only_active_at sc 0"
    using ob activating_again_keeps [OF ob] by (simp add: sc_def up split: option.splits)
  have "steps_dom (ensure_feedback c) = steps_dom sc"
    unfolding ensure_feedback_def Let_def sb_def [symmetric] sc_def [symmetric]
    by (simp split: option.splits)
  then show ?thesis using oc only_active_dom by blast
qed

lemma start_sim_inv:
  assumes o: "timers_owned s" and a: "only_active_at s 0"
  shows "sim_inv (startProgressPolling taskId t0 t1 t2 s)"
proof -
  define c where "c = clear_simulation (clear_polling s)"
  define e0 where "e0 = \<lparr>currentStepIndex = 0, stepStartTime = t0, lastProgress = 0, isTransitioning = False\<rparr>"
  define r where "r = runSimulation t1 t2 (e0, ensure_feedback c)"
  have "steps_dom c = steps_dom s" by (simp add: c_def clear_simulation_keeps clear_polling_keeps)
  then have "only_active_at c 0" using a only_active_dom by blast
  then have "only_active_at (ensure_feedback c) (currentStepIndex e0)"
    using ensure_feedback_only_active by (simp add: e0_def)
  then have or: "only_active_at (snd r) (currentStepIndex (fst r))"
    unfolding r_def by (rule runSimulation_only_active)
  have u: "startProgressPolling taskId t0 t1 t2 s =
      (snd r)\<lparr>timers := (timers (snd r))(Suc (next_handle (snd r)) \<mapsto> SimTimer (fst r),
                                          Suc (Suc (next_handle (snd r))) \<mapsto> PollTimer taskId),
                 next_handle := Suc (Suc (next_handle (snd r))),
                 simulationInterval := Some (Suc (next_handle (snd r))),
                 progressInterval := Some (Suc (Suc (next_handle (snd r))))\<rparr>"
    unfolding start_unfold Let_def c_def [symmetric] e0_def [symmetric] r_def [symmetric] by (rule refl)
  have d: "steps_dom (startProgressPolling taskId t0 t1 t2 s) = steps_dom (snd r)"
    by (simp add: u)
  have t: "timers (startProgressPolling taskId t0 t1 t2 s) (Suc (next_handle (snd r))) = Some (SimTimer (fst r))"
    by (simp add: u)
  have "only_active_at (startProgressPolling taskId t0 t1 t2 s) (currentStepIndex (fst r))"
    using or only_active_dom [OF d] by simp
  with t start_owned [OF o] show ?thesis unfolding sim_inv_def by blast
qed

lemma sim_fire_sim_inv:
  assumes "sim_inv s"
  shows "sim_inv (sim_fire g now now2 s)"
proof -
  from assms obtain h e where o: "timers_owned s" and t: "timers s h = Some (SimTimer e)"
    and a: "only_active_at s (currentStepIndex e)"
    unfolding sim_inv_def by blast
  show ?thesis
  proof (cases "\<exists>e'. timers s g = Some (SimTimer e')")
    case False
    then have "sim_fire g now now2 s = s"
      by (auto simp: sim_fire_def split: option.splits timer.splits)
    with assms show ?thesis by simp
  next
    case True
    then obtain e' where t': "timers s g = Some (SimTimer e')" by blast
    have "simulationInterval s = Some g" and "simulationInterval s = Some h"
      using o t t' by (auto simp: timers_owned_def)
    then have "g = h" by simp
    with t t' have e': "e' = e" by simp
    let ?r = "runSimulation now now2 (e, s)"
    have or: "only_active_at (snd ?r) (currentStepIndex (fst ?r))"
      using a by (rule runSimulation_only_active)
    have d: "steps_dom (sim_fire g now now2 s) = steps_dom (snd ?r)"
      using t' e' by (simp add: sim_fire_live)
    have tt: "timers (sim_fire g now now2 s) g = Some (SimTimer (fst ?r))"
      using t' e' by (simp add: sim_fire_live)
    have "only_active_at (sim_fire g now now2 s) (currentStepIndex (fst ?r))"
      using or only_active_dom [OF d] by simp
    with tt sim_fire_owned [OF o] show ?thesis unfolding sim_inv_def by blast
  qed
qed

lemma ticks_sim_inv:
  assumes "sim_inv s" and "\<forall>ev\<in>set ticks. is_SimFire ev"
  shows "sim_inv (run ticks s)"
  using assms unfolding run_def
proof (induction ticks arbitrary: s)
  case Nil
  then show ?case by simp
next
  case (Cons ev ticks)
  then obtain g now now2 where "ev = SimFire g now now2"
    by (cases ev) (simp_all add: is_SimFire_def)
  with Cons show ?case by (simp add: sim_fire_sim_inv)
qed

text \<open>What a response does to the step elements depends on the step elements only.\<close>

lemma dom_cong_updateStepStatus:
  assumes "steps_dom s = steps_dom s'"
  shows "steps_dom (updateStepStatus n st s) = steps_dom (updateStepStatus n st s')"
  by (rule ext) (simp add: dom_updateStepStatus assms)

lemma dom_cong_fold:
  assumes "steps_dom s = steps_dom s'"
  shows "steps_dom (fold (\<lambda>n. updateStepStatus n st) ns s) = steps_dom (fold (\<lambda>n. updateStepStatus n st) ns s')"
  using assms
proof (induction ns arbitrary: s s')
  case Nil
  then show ?case by simp
next
  case (Cons n ns)
  have h: "steps_dom (updateStepStatus n st s) = steps_dom (updateStepStatus n st s')"
    using Cons.prems by (rule dom_cong_updateStepStatus)
  show ?case using Cons.IH [OF h] by simp
qed

lemma dom_cong_updateStepStatus_at:
  assumes "steps_dom s = steps_dom s'"
  shows "steps_dom (updateStepStatus_at i st s) = steps_dom (updateStepStatus_at i st s')"
proof (cases "step_at i")
  case None
  then show ?thesis using assms by (simp add: updateStepStatus_at_def)
next
  case (Some n)
  then show ?thesis
    using dom_cong_updateStepStatus [OF assms, of n st] by (simp add: updateStepStatus_at_def)
qed

lemma dom_cong_fold_at:
  assumes "steps_dom s = steps_dom s'"
  shows "steps_dom (fold (\<lambda>i. updateStepStatus_at i st) is s) = steps_dom (fold (\<lambda>i. updateStepStatus_at i st) is s')"
  using assms
proof (induction "is" arbitrary: s s')
  case Nil
  then show ?case by simp
next
  case (Cons i "is")
  have h: "steps_dom (updateStepStatus_at i st s) = steps_dom (updateStepStatus_at i st s')"
    using Cons.prems by (rule dom_cong_updateStepStatus_at)
  show ?case using Cons.IH [OF h] by simp
qed

lemma dom_cong_updateProgress:
  assumes "steps_dom s = steps_dom s'"
  shows "steps_dom (updateProgress t s) = steps_dom (updateProgress t s')"
proof -
  let ?p = "min (max (progress_or_0 t) 0) 100"
  define a where "a = (if truthy_str (t_current_step t)
                then updateStepStatus (the (t_current_step t)) Active (set_bar ?p s) else set_bar ?p s)"
  define a' where "a' = (if truthy_str (t_current_step t)
                then updateStepStatus (the (t_current_step t)) Active (set_bar ?p s') else set_bar ?p s')"
  have b: "steps_dom (set_bar ?p s) = steps_dom (set_bar ?p s')" using assms by simp
  have c: "steps_dom a = steps_dom a'"
    unfolding a_def a'_def using b dom_cong_updateStepStatus [OF b] by simp
  have u: "updateProgress t s = (case t_completed_steps t of None \<Rightarrow> a
             | Some cs \<Rightarrow> fold (\<lambda>n. updateStepStatus n Completed) cs a)"
    and u': "updateProgress t s' = (case t_completed_steps t of None \<Rightarrow> a'
             | Some cs \<Rightarrow> fold (\<lambda>n. updateStepStatus n Completed) cs a')"
    unfolding updateProgress_def Let_def a_def a'_def by (rule refl)+
  show ?thesis
  proof (cases "t_completed_steps t")
    case None
    then show ?thesis using c by (simp add: u u')
  next
    case (Some cs)
    then show ?thesis using dom_cong_fold [OF c, of Completed cs] by (simp add: u u')
  qed
qed

lemma dom_cong_apply_progress:
  assumes "steps_dom s = steps_dom s'"
  shows "steps_dom (apply_progress t s) = steps_dom (apply_progress t s')"
proof (cases "0 < progress_or_0 t")
  case False
  then show ?thesis using assms by (simp add: apply_progress_def)
next
  case True
  let ?e = "estimatedStep (progress_or_0 t)"
  define b where "b = fold (\<lambda>i. updateStepStatus_at i Completed) [0..<?e] (clear_simulation s)"
  define b' where "b' = fold (\<lambda>i. updateStepStatus_at i Completed) [0..<?e] (clear_simulation s')"
  define c where "c = (if ?e < length steps then updateStepStatus_at ?e Active b else b)"
  define c' where "c' = (if ?e < length steps then updateStepStatus_at ?e Active b' else b')"
  have a: "steps_dom (clear_simulation s) = steps_dom (clear_simulation s')"
    using assms by (simp add: clear_simulation_keeps)
  have bb: "steps_dom b = steps_dom b'"
    unfolding b_def b'_def using a by (rule dom_cong_fold_at)
  have cc: "steps_dom c = steps_dom c'"
    unfolding c_def c'_def using bb dom_cong_updateStepStatus_at [OF bb] by simp
  have "apply_progress t s = updateProgress t c" and "apply_progress t s' = updateProgress t c'"
    using True by (simp_all add: apply_progress_def Let_def c_def c'_def b_def b'_def)
  then show ?thesis using dom_cong_updateProgress [OF cc] by simp
qed

section \<open>Facts about the component\<close>

lemma chain_invI:
  assumes "\<And>h h' t t'. pending s h = Some t \<Longrightarrow> pending s h' = Some t' \<Longrightarrow> is_chain t \<Longrightarrow> is_chain t' \<Longrightarrow> h = h'"
    and "onComplete_calls s \<le> 1"
    and "onComplete_calls s = 1 \<Longrightarrow> no_chain s"
    and "0 < onComplete_calls s \<Longrightarrow> status s = ''Completed'' \<and> isCompleted s"
    and "\<And>h. pending s h = Some CallOnComplete \<Longrightarrow> status s = ''Completed'' \<and> isCompleted s"
    and "\<And>h t. pending s h = Some t \<Longrightarrow> h \<le> next_id s"
  shows "chain_inv s"
  unfolding chain_inv_def using assms by blast

lemma chain_invD:
  assumes "chain_inv s"
  shows "\<And>h h' t t'. pending s h = Some t \<Longrightarrow> pending s h' = Some t' \<Longrightarrow> is_chain t \<Longrightarrow> is_chain t' \<Longrightarrow> h = h'"
    and "onComplete_calls s \<le> 1"
    and "onComplete_calls s = 1 \<Longrightarrow> no_chain s"
    and "0 < onComplete_calls s \<Longrightarrow> status s = ''Completed'' \<and> isCompleted s"
    and "\<And>h. pending s h = Some CallOnComplete \<Longrightarrow> status s = ''Completed'' \<and> isCompleted s"
    and "\<And>h t. pending s h = Some t \<Longrightarrow> h \<le> next_id s"
  using assms unfolding chain_inv_def by blast+

lemma is_chain_simps [simp]:
  "\<not> is_chain (ProgressTick a b c)" "is_chain (StepDone i)" "is_chain (NextStep i)" "is_chain CallOnComplete"
  by (simp_all add: is_chain_def)


lemma chain_inv_shrink:
  assumes inv: "chain_inv s"
    and sub: "\<And>h t. pending s' h = Some t \<Longrightarrow> is_chain t \<Longrightarrow> pending s h = Some t"
    and calls: "onComplete_calls s' = onComplete_calls s"
    and st: "status s' = status s" "isCompleted s' = isCompleted s"
    and fresh: "\<And>h t. pending s' h = Some t \<Longrightarrow> h \<le> next_id s'"
  shows "chain_inv s'"
proof (rule chain_invI)
  fix h h' t t'
  assume "pending s' h = Some t" "pending s' h' = Some t'" "is_chain t" "is_chain t'"
  then have "pending s h = Some t" "pending s h' = Some t'" using sub by blast+
  then show "h = h'" using chain_invD(1) [OF inv] \<open>is_chain t\<close> \<open>is_chain t'\<close> by blast
next
  show "onComplete_calls s' \<le> 1" using chain_invD(2) [OF inv] calls by simp
next
  assume "onComplete_calls s' = 1"
  then have "no_chain s" using chain_invD(3) [OF inv] calls by simp
  then show "no_chain s'" unfolding no_chain_def using sub by blast
next
  assume "0 < onComplete_calls s'"
  then show "status s' = ''Completed'' \<and> isCompleted s'"
    using chain_invD(4) [OF inv] calls st by simp
next
  fix h assume "pending s' h = Some CallOnComplete"
  then have "pending s h = Some CallOnComplete" using sub by simp
  then show "status s' = ''Completed'' \<and> isCompleted s'"
    using chain_invD(5) [OF inv] st by simp
next
  fix h t assume "pending s' h = Some t"
  then show "h \<le> next_id s'" using fresh by blast
qed

lemma clear_timer_fields:
  "onComplete_calls (clear_timer x s) = onComplete_calls s"
  "status (clear_timer x s) = status s"
  "isCompleted (clear_timer x s) = isCompleted s"
  "next_id (clear_timer x s) = next_id s"
  "progressTimer (clear_timer x s) = progressTimer s"
  "stepTimer (clear_timer x s) = stepTimer s"
  "has_onComplete (clear_timer x s) = has_onComplete s"
  by (simp_all add: clear_timer_def split: option.splits)

lemma clear_timer_pending:
  "pending (clear_timer x s) h = Some t \<Longrightarrow> pending s h = Some t"
  by (simp add: clear_timer_def split: option.splits if_splits)

lemma clear_timer_inv:
  assumes "chain_inv s"
  shows "chain_inv (clear_timer x s)"
proof (rule chain_inv_shrink [OF assms])
  fix h t assume "pending (clear_timer x s) h = Some t"
  then show "pending s h = Some t" by (rule clear_timer_pending)
next
  fix h t assume "pending (clear_timer x s) h = Some t"
  then have "pending s h = Some t" by (rule clear_timer_pending)
  then show "h \<le> next_id (clear_timer x s)"
    using chain_invD(6) [OF assms] by (simp add: clear_timer_fields)
qed (simp_all add: clear_timer_fields)

lemma cleanup_inv: "chain_inv s \<Longrightarrow> chain_inv (cleanup s)"
  by (simp add: cleanup_def clear_timer_inv)

lemma schedule_fields:
  "fst (schedule t s) = Suc (next_id s)"
  "pending (snd (schedule t s)) = (pending s)(Suc (next_id s) \<mapsto> t)"
  "next_id (snd (schedule t s)) = Suc (next_id s)"
  "onComplete_calls (snd (schedule t s)) = onComplete_calls s"
  "status (snd (schedule t s)) = status s"
  "isCompleted (snd (schedule t s)) = isCompleted s"
  "has_onComplete (snd (schedule t s)) = has_onComplete s"
  by (simp_all add: schedule_def Let_def)


lemma chain_inv_add:
  assumes p: "\<And>h u. pending s' h = Some u \<Longrightarrow> is_chain u \<Longrightarrow> h = k \<and> u = t"
    and calls: "onComplete_calls s' = 0"
    and fin: "t = CallOnComplete \<Longrightarrow> status s' = ''Completed'' \<and> isCompleted s'"
    and fresh: "\<And>h u. pending s' h = Some u \<Longrightarrow> h \<le> next_id s'"
  shows "chain_inv s'"
proof (rule chain_invI)
  fix h h' u u'
  assume "pending s' h = Some u" "pending s' h' = Some u'" "is_chain u" "is_chain u'"
  then have "h = k" "h' = k" using p by blast+
  then show "h = h'" by simp
next
  show "onComplete_calls s' \<le> 1" using calls by simp
next
  assume "onComplete_calls s' = 1"
  then show "no_chain s'" using calls by simp
next
  assume "0 < onComplete_calls s'"
  then show "status s' = ''Completed'' \<and> isCompleted s'" using calls by simp
next
  fix h assume a: "pending s' h = Some CallOnComplete"
  then have "CallOnComplete = t" using p [OF a] by simp
  then show "status s' = ''Completed'' \<and> isCompleted s'" using fin by simp
next
  fix h u assume "pending s' h = Some u"
  then show "h \<le> next_id s'" using fresh by blast
qed

lemma fresh_not_pending:
  assumes "chain_inv s"
  shows "pending s (Suc (next_id s)) = None"
proof (cases "pending s (Suc (next_id s))")
  case None then show ?thesis .
next
  case (Some t)
  then have "Suc (next_id s) \<le> next_id s" using chain_invD(6) [OF assms] by blast
  then show ?thesis by simp
qed

lemma startStep_inv:
  assumes inv: "chain_inv s" and nc: "no_chain s" and z: "onComplete_calls s = 0"
  shows "chain_inv (startStep i s)"
proof (cases "i \<ge> length steps")
  case True
  define s1 where "s1 = s\<lparr>status := ''Completed'', isCompleted := True, progress := 100\<rparr>"
  show ?thesis
  proof (cases "has_onComplete s")
    case False
    have e: "startStep i s = s1" using True False by (simp add: startStep_def s1_def)
    show ?thesis unfolding e
    proof (rule chain_inv_add [where k = 0 and t = CallOnComplete])
      fix h u assume "pending s1 h = Some u" "is_chain u"
      then show "h = 0 \<and> u = CallOnComplete" using nc by (simp add: s1_def no_chain_def)
    next
      fix h u assume "pending s1 h = Some u"
      then show "h \<le> next_id s1" using chain_invD(6) [OF inv] by (simp add: s1_def)
    qed (simp_all add: s1_def z)
  next
    case hc: True
    have e: "startStep i s = snd (schedule CallOnComplete s1)"
      using True hc by (simp add: startStep_def s1_def)
    show ?thesis unfolding e
    proof (rule chain_inv_add [where k = "Suc (next_id s)" and t = CallOnComplete])
      fix h u assume "pending (snd (schedule CallOnComplete s1)) h = Some u" "is_chain u"
      then show "h = Suc (next_id s) \<and> u = CallOnComplete"
        using nc by (auto simp: schedule_fields s1_def no_chain_def split: if_splits)
    next
      fix h u assume "pending (snd (schedule CallOnComplete s1)) h = Some u"
      then show "h \<le> next_id (snd (schedule CallOnComplete s1))"
        using chain_invD(6) [OF inv, of h u]
        by (auto simp: schedule_fields s1_def split: if_splits)
    qed (simp_all add: schedule_fields s1_def z)
  qed
next
  case False
  define s1 where "s1 = s\<lparr>stepStatuses := (stepStatuses s)[i := Active], currentStep := i\<rparr>"
  define tp where "tp = (real (i + 1) / real (length steps)) * 100"
  define sp where "sp = (real i / real (length steps)) * 100"
  define pt where "pt = ProgressTick sp ((tp - sp) / (1500 / 50)) tp"
  define s3 where "s3 = (snd (schedule pt s1))\<lparr>progressTimer := Some (Suc (next_id s))\<rparr>"
  define s5 where "s5 = (snd (schedule (StepDone i) s3))\<lparr>stepTimer := Some (Suc (Suc (next_id s)))\<rparr>"
  have e: "startStep i s = s5"
    using False
    by (simp add: startStep_def Let_def schedule_def s1_def tp_def sp_def pt_def s3_def s5_def)
  have pend: "pending s5 = (pending s)(Suc (next_id s) \<mapsto> pt, Suc (Suc (next_id s)) \<mapsto> StepDone i)"
    by (simp add: s5_def s3_def s1_def schedule_def Let_def)
  have nid: "next_id s5 = Suc (Suc (next_id s))"
    by (simp add: s5_def s3_def s1_def schedule_def Let_def)
  have rest: "onComplete_calls s5 = onComplete_calls s"
    by (simp add: s5_def s3_def s1_def schedule_def Let_def)
  have npt: "\<not> is_chain pt" by (simp add: pt_def)
  show ?thesis unfolding e
  proof (rule chain_inv_add [where k = "Suc (Suc (next_id s))" and t = "StepDone i"])
    fix h u assume "pending s5 h = Some u" "is_chain u"
    then show "h = Suc (Suc (next_id s)) \<and> u = StepDone i"
      using nc npt by (auto simp: pend no_chain_def split: if_splits)
  next
    fix h u assume "pending s5 h = Some u"
    then show "h \<le> next_id s5"
      using chain_invD(6) [OF inv, of h u] by (auto simp: pend nid split: if_splits)
  qed (simp_all add: rest z)
qed

lemma chain_pending_calls:
  assumes "chain_inv s" and "pending s h = Some t" and "is_chain t"
  shows "onComplete_calls s = 0" and "\<And>g u. pending s g = Some u \<Longrightarrow> is_chain u \<Longrightarrow> g = h"
proof -
  have "onComplete_calls s \<noteq> 1"
    using chain_invD(3) [OF assms(1)] assms(2,3) unfolding no_chain_def by blast
  then show "onComplete_calls s = 0" using chain_invD(2) [OF assms(1)] by simp
  fix g u assume "pending s g = Some u" "is_chain u"
  then show "g = h" using chain_invD(1) [OF assms(1)] assms(2,3) by blast
qed

lemma drop_chain_inv:
  assumes "chain_inv s"
  shows "chain_inv (s\<lparr>pending := (pending s)(h := None)\<rparr>)"
proof (rule chain_inv_shrink [OF assms])
  fix g t assume "pending (s\<lparr>pending := (pending s)(h := None)\<rparr>) g = Some t"
  then show "pending s g = Some t" by (simp split: if_splits)
next
  fix g t assume "pending (s\<lparr>pending := (pending s)(h := None)\<rparr>) g = Some t"
  then have "pending s g = Some t" by (simp split: if_splits)
  then show "g \<le> next_id (s\<lparr>pending := (pending s)(h := None)\<rparr>)"
    using chain_invD(6) [OF assms] by simp
qed simp_all

lemma drop_chain_no_chain:
  assumes "chain_inv s" and "pending s h = Some t" and "is_chain t"
  shows "no_chain (s\<lparr>pending := (pending s)(h := None)\<rparr>)"
  unfolding no_chain_def
proof (intro allI impI)
  fix g u assume a: "pending (s\<lparr>pending := (pending s)(h := None)\<rparr>) g = Some u"
  then have gh: "g \<noteq> h" and pu: "pending s g = Some u" by (simp_all split: if_splits)
  show "\<not> is_chain u"
  proof
    assume "is_chain u"
    then have "g = h" using chain_pending_calls(2) [OF assms pu] by blast
    with gh show False by simp
  qed
qed

lemma fire_inv:
  assumes inv: "chain_inv s"
  shows "chain_inv (fire h s)"
proof (cases "pending s h")
  case None
  then show ?thesis using inv by (simp add: fire_def)
next
  case (Some t)
  show ?thesis
  proof (cases t)
    case (ProgressTick c inc tgt)
    define t' where "t' = (if tgt \<le> c + inc then ProgressTick tgt inc tgt else ProgressTick (c + inc) inc tgt)"
    have nt: "\<not> is_chain t'" by (simp add: t'_def)
    have hn: "h \<le> next_id s" using chain_invD(6) [OF inv Some] .
    show ?thesis
    proof (rule chain_inv_shrink [OF inv])
      fix g u assume a: "pending (fire h s) g = Some u" and c: "is_chain u"
      then show "pending s g = Some u"
        using Some ProgressTick
        by (auto simp: fire_def Let_def clear_timer_def split: if_splits option.splits)
    next
      fix g u assume a: "pending (fire h s) g = Some u"
      then have "g = h \<or> pending s g = Some u"
        using Some ProgressTick
        by (auto simp: fire_def Let_def clear_timer_def split: if_splits option.splits)
      then have "g \<le> next_id s" using hn chain_invD(6) [OF inv] by blast
      moreover have "next_id (fire h s) = next_id s"
        using Some ProgressTick
        by (simp add: fire_def Let_def clear_timer_def split: option.splits)
      ultimately show "g \<le> next_id (fire h s)" by simp
    qed (use Some ProgressTick in \<open>simp_all add: fire_def Let_def clear_timer_def split: option.splits\<close>)
  next
    case (StepDone i)
    define s1 where "s1 = s\<lparr>pending := (pending s)(h := None), stepStatuses := (stepStatuses s)[i := Completed]\<rparr>"
    have e: "fire h s = snd (schedule (NextStep i) s1)"
      using Some StepDone by (simp add: fire_def s1_def)
    have ch: "is_chain t" using StepDone by simp
    have z: "onComplete_calls s = 0" using chain_pending_calls(1) [OF inv Some ch] .
    have nc: "no_chain (s\<lparr>pending := (pending s)(h := None)\<rparr>)"
      using drop_chain_no_chain [OF inv Some ch] .
    show ?thesis unfolding e
    proof (rule chain_inv_add [where k = "Suc (next_id s)" and t = "NextStep i"])
      fix g u assume "pending (snd (schedule (NextStep i) s1)) g = Some u" "is_chain u"
      then show "g = Suc (next_id s) \<and> u = NextStep i"
        using nc by (auto simp: schedule_fields s1_def no_chain_def split: if_splits)
    next
      fix g u assume "pending (snd (schedule (NextStep i) s1)) g = Some u"
      then show "g \<le> next_id (snd (schedule (NextStep i) s1))"
        using chain_invD(6) [OF inv, of g u]
        by (auto simp: schedule_fields s1_def split: if_splits)
    qed (simp_all add: schedule_fields s1_def z)
  next
    case (NextStep i)
    define s1 where "s1 = s\<lparr>pending := (pending s)(h := None)\<rparr>"
    have e: "fire h s = startStep (i + 1) s1"
      using Some NextStep by (simp add: fire_def s1_def)
    have ch: "is_chain t" using NextStep by simp
    have z: "onComplete_calls s1 = 0" using chain_pending_calls(1) [OF inv Some ch] by (simp add: s1_def)
    have nc: "no_chain s1" unfolding s1_def using drop_chain_no_chain [OF inv Some ch] .
    have i1: "chain_inv s1" unfolding s1_def using drop_chain_inv [OF inv] .
    show ?thesis unfolding e using startStep_inv [OF i1 nc z] .
  next
    case CallOnComplete
    define s1 where "s1 = s\<lparr>pending := (pending s)(h := None), onComplete_calls := onComplete_calls s + 1\<rparr>"
    have e: "fire h s = s1"
      using Some CallOnComplete by (simp add: fire_def s1_def)
    have ch: "is_chain t" using CallOnComplete by simp
    have z: "onComplete_calls s = 0" using chain_pending_calls(1) [OF inv Some ch] .
    have nc: "no_chain (s\<lparr>pending := (pending s)(h := None)\<rparr>)"
      using drop_chain_no_chain [OF inv Some ch] .
    have comp: "status s = ''Completed'' \<and> isCompleted s"
      using chain_invD(5) [OF inv] Some CallOnComplete by blast
    show ?thesis unfolding e
    proof (rule chain_invI)
      fix g g' u u'
      assume "pending s1 g = Some u" "is_chain u"
      then have False using nc by (simp add: s1_def no_chain_def)
      then show "g = g'" ..
    next
      show "onComplete_calls s1 \<le> 1" using z by (simp add: s1_def)
    next
      show "no_chain s1" using nc by (simp add: s1_def no_chain_def)
    next
      show "status s1 = ''Completed'' \<and> isCompleted s1" using comp by (simp add: s1_def)
    next
      fix g assume "pending s1 g = Some CallOnComplete"
      show "status s1 = ''Completed'' \<and> isCompleted s1" using comp by (simp add: s1_def)
    next
      fix g u assume "pending s1 g = Some u"
      then show "g \<le> next_id s1"
        using chain_invD(6) [OF inv, of g u] by (simp add: s1_def split: if_splits)
    qed
  qed
qed

lemma pstep_inv: "chain_inv s \<Longrightarrow> chain_inv (pstep ev s)"
  by (cases ev) (simp_all add: fire_inv cleanup_inv)

lemma prun_inv: "chain_inv s \<Longrightarrow> chain_inv (prun evs s)"
  unfolding prun_def by (induction evs arbitrary: s) (simp_all add: pstep_inv)

lemma mount_inv: "chain_inv (mount cb)"
  unfolding mount_def
proof (rule startStep_inv)
  let ?s0 = "\<lparr>currentStep = 0, progress = 0, status = ''In Progress'',
        stepStatuses = map (\<lambda>_. Pending) steps, isCompleted = False,
        progressTimer = None, stepTimer = None, pending = Map.empty, next_id = 0,
        has_onComplete = cb, onComplete_calls = 0\<rparr>"
  show "chain_inv ?s0" by (rule chain_invI) (simp_all add: no_chain_def)
  show "no_chain ?s0" by (simp add: no_chain_def)
  show "onComplete_calls ?s0 = 0" by simp
qed

text \<open>Unfolding a run of the component on concrete firings.\<close>

lemma replicate_numeral_Cons: "replicate (numeral k) x = x # replicate (pred_numeral k) x"
  by (simp add: numeral_eq_Suc)

lemmas component_defs = prun_def step_firings_def fire_def startStep_def schedule_def clear_timer_def
  cleanup_def mount_def steps_def Let_def whole_run_def


section \<open>The claims\<close>

subsection \<open>C1: the displayed progress is not kept monotone\<close>

text \<open>
  Claim C1 says that every applied sample writes the maximum of the shown progress and
  its own. The script has no such maximum: \<open>updateProgress\<close> writes the clamped
  \<open>task.progress\<close> whatever the bar shows. First a run in which the bar goes from 40
  down to 10; then what does hold: a response with \<open>progress > 0\<close> sets the bar to
  \<open>min(progress, 100)\<close>, and a simulated tick, outside the block that ends the
  simulation, writes a value strictly above the simulator's own \<open>lastProgress\<close>.
\<close>

theorem progress_regresses_counterexample:
  "map_option width (progress_bar (run [Start ''task'' 0 0 0, PollFire 2, PollSettle (Json sample40)] fresh_page))
     = Some 40 \<and>
   map_option width (progress_bar (run [Start ''task'' 0 0 0, PollFire 2, PollSettle (Json sample40),
                                        PollFire 2, PollSettle (Json sample10)] fresh_page))
     = Some 10"
  by code_simp

text \<open>
  Claim C1, amended: a remote sample overwrites the bar with its clamped progress; a
  simulated tick exceeds the last simulated value.
\<close>

theorem remote_overwrites_tick_exceeds_last:
  assumes "progress_bar s = Some b"
  shows "(0 < progress_or_0 t \<longrightarrow>
            map_option width (progress_bar (apply_progress t s)) = Some (min (progress_or_0 t) 100)) \<and>
         (now - stepStartTime e < stepDuration \<or> (currentStepIndex e + 2 < length steps \<and> \<not> isTransitioning e) \<longrightarrow>
            (\<exists>w. map_option width (progress_bar (snd (runSimulation now now2 (e, s)))) = Some w \<and>
                 lastProgress e < w))"
proof (intro conjI impI)
  assume "0 < progress_or_0 t"
  then show "map_option width (progress_bar (apply_progress t s)) = Some (min (progress_or_0 t) 100)"
    using assms by (simp add: bar_apply_progress)
next
  assume h: "now - stepStartTime e < stepDuration \<or> (currentStepIndex e + 2 < length steps \<and> \<not> isTransitioning e)"
  let ?p = "if sim_progress (currentStepIndex e) (now - stepStartTime e) \<le> lastProgress e
               then lastProgress e + 8 / 10
               else sim_progress (currentStepIndex e) (now - stepStartTime e)"
  have gt: "lastProgress e < ?p" by simp
  have "progress_bar (snd (runSimulation now now2 (e, s))) = progress_bar (set_bar ?p s)"
  proof (cases "now - stepStartTime e < stepDuration")
    case True
    then show ?thesis by (simp add: runSimulation_plain_tick Let_def)
  next
    case False
    with h show ?thesis by (simp add: runSimulation_transition_tick)
  qed
  then have "map_option width (progress_bar (snd (runSimulation now now2 (e, s)))) = Some ?p"
    using assms by (simp add: bar_set_bar)
  with gt show "\<exists>w. map_option width (progress_bar (snd (runSimulation now now2 (e, s)))) = Some w \<and>
                 lastProgress e < w"
    by blast
qed

theorem remote_overwrites_tick_exceeds_last_witness:
  "progress_bar fresh_page = Some \<lparr>width = 0, text_pct = 0\<rparr> \<and>
   0 < progress_or_0 sample10 \<and>
   map_option width (progress_bar (apply_progress sample10 fresh_page)) = Some 10 \<and>
   (\<exists>w. map_option width (progress_bar (snd (runSimulation 1000 1000
          (\<lparr>currentStepIndex = 0, stepStartTime = 0, lastProgress = 0, isTransitioning = False\<rparr>, fresh_page))))
          = Some w \<and> 0 < w)"
proof -
  let ?e = "\<lparr>currentStepIndex = 0, stepStartTime = 0, lastProgress = 0, isTransitioning = False\<rparr>"
  have a: "progress_bar fresh_page = Some \<lparr>width = 0, text_pct = 0\<rparr>" by (simp add: fresh_page_def)
  have b: "0 < progress_or_0 sample10" by (simp add: progress_or_0_def sample10_def)
  have c: "min (progress_or_0 sample10) 100 = 10" by (simp add: progress_or_0_def sample10_def)
  have d: "(1000::int) - stepStartTime ?e < stepDuration" by (simp add: stepDuration_def)
  note th = remote_overwrites_tick_exceeds_last [OF a, of sample10 1000 ?e 1000]
  have p1: "map_option width (progress_bar (apply_progress sample10 fresh_page)) = Some 10"
    using th b c by simp
  have p2: "\<exists>w. map_option width (progress_bar (snd (runSimulation 1000 1000 (?e, fresh_page)))) = Some w \<and>
                 lastProgress ?e < w"
    using th d by blast
  show ?thesis using a b p1 p2 by simp
qed

subsection \<open>C2: the simulation does reach 100\<close>

text \<open>
  Claim C2 says that a pure simulation is clamped at 95, with the last stage active. The
  value a tick computes is the clamped formula, but \<open>runSimulation\<close> ends with a block
  that, once the cursor is on the last stage and \<open>elapsed >= stepDuration\<close>, marks
  the last stage completed and writes 100 to the bar. First the run with a tick every
  2000 ms up to 12000 ms.
\<close>

theorem simulation_reaches_100_counterexample:
  "map_option width (progress_bar (run [Start ''task'' 0 0 0, SimFire 1 2000 2000, SimFire 1 4000 4000,
       SimFire 1 6000 6000, SimFire 1 8000 8000, SimFire 1 10000 10000, SimFire 1 12000 12000] fresh_page))
     = Some 100 \<and>
   steps_dom (run [Start ''task'' 0 0 0, SimFire 1 2000 2000, SimFire 1 4000 4000,
       SimFire 1 6000 6000, SimFire 1 8000 8000, SimFire 1 10000 10000, SimFire 1 12000 12000] fresh_page) ''output''
     = Some {Completed}"
  by code_simp

text \<open>
  Claim C2, amended: the value a tick computes is the formula of the specification, at
  most 95, and a tick before the stage's duration has elapsed writes it when it exceeds
  the last simulated value; a tick that finds the cursor on the last stage with the
  duration elapsed writes 100 and marks the last stage completed, and the run goes on:
  the simulation timer and the polling timer stay scheduled, nothing is displayed and
  the processing section is not hidden.
\<close>

theorem simulation_formula_and_end:
  assumes "progress_bar s = Some b" and "steps_dom s ''output'' = Some cs"
    and "timers s h = Some (SimTimer e)"
  shows "sim_progress idx elapsed = spec_overallProgress idx elapsed \<and>
         sim_progress idx elapsed \<le> 95 \<and>
         (now - stepStartTime e < stepDuration \<and>
          lastProgress e < sim_progress (currentStepIndex e) (now - stepStartTime e) \<longrightarrow>
            map_option width (progress_bar (sim_fire h now now2 s))
              = Some (sim_progress (currentStepIndex e) (now - stepStartTime e))) \<and>
         (currentStepIndex e = length steps - 1 \<and> stepDuration \<le> now - stepStartTime e \<longrightarrow>
            map_option width (progress_bar (sim_fire h now now2 s)) = Some 100 \<and>
            steps_dom (sim_fire h now now2 s) ''output'' = Some {Completed} \<and>
            (\<exists>e'. timers (sim_fire h now now2 s) h = Some (SimTimer e')) \<and>
            (\<forall>g. g \<noteq> h \<longrightarrow> timers (sim_fire h now now2 s) g = timers s g) \<and>
            simulationInterval (sim_fire h now now2 s) = simulationInterval s \<and>
            progressInterval (sim_fire h now now2 s) = progressInterval s \<and>
            displayed_results (sim_fire h now now2 s) = displayed_results s \<and>
            shown_errors (sim_fire h now now2 s) = shown_errors s \<and>
            processing_hidden (sim_fire h now now2 s) = processing_hidden s)"
proof (intro conjI impI)
  show "sim_progress idx elapsed = spec_overallProgress idx elapsed" by (rule sim_progress_spec)
  show "sim_progress idx elapsed \<le> 95" by (rule sim_progress_le_95)
next
  assume "now - stepStartTime e < stepDuration \<and>
          lastProgress e < sim_progress (currentStepIndex e) (now - stepStartTime e)"
  then show "map_option width (progress_bar (sim_fire h now now2 s))
              = Some (sim_progress (currentStepIndex e) (now - stepStartTime e))"
    using assms(1) by (simp add: sim_fire_live [OF assms(3)] runSimulation_plain_tick Let_def bar_set_bar)
next
  assume h: "currentStepIndex e = length steps - 1 \<and> stepDuration \<le> now - stepStartTime e"
  let ?r = "snd (runSimulation now now2 (e, s))"
  note c = controls_fields [OF controls_runSimulation [of now now2 e s]]
  have r: "?r = set_bar 100 (updateStepStatus ''output'' Completed
       (set_bar (if sim_progress (currentStepIndex e) (now - stepStartTime e) \<le> lastProgress e
               then lastProgress e + 8 / 10
               else sim_progress (currentStepIndex e) (now - stepStartTime e)) s))"
    using runSimulation_end_tick h by blast
  show "map_option width (progress_bar (sim_fire h now now2 s)) = Some 100"
    using assms(1) by (simp add: sim_fire_live [OF assms(3)] r bar_set_bar)
  show "steps_dom (sim_fire h now now2 s) ''output'' = Some {Completed}"
    using assms(2) by (simp add: sim_fire_live [OF assms(3)] r dom_updateStepStatus)
  show "\<exists>e'. timers (sim_fire h now now2 s) h = Some (SimTimer e')"
    by (simp add: sim_fire_live [OF assms(3)])
  show "\<forall>g. g \<noteq> h \<longrightarrow> timers (sim_fire h now now2 s) g = timers s g"
    using c(1) by (simp add: sim_fire_live [OF assms(3)])
  show "simulationInterval (sim_fire h now now2 s) = simulationInterval s"
    using c(3) by (simp add: sim_fire_live [OF assms(3)])
  show "progressInterval (sim_fire h now now2 s) = progressInterval s"
    using c(2) by (simp add: sim_fire_live [OF assms(3)])
  show "displayed_results (sim_fire h now now2 s) = displayed_results s"
    using c(7) by (simp add: sim_fire_live [OF assms(3)])
  show "shown_errors (sim_fire h now now2 s) = shown_errors s"
    using c(6) by (simp add: sim_fire_live [OF assms(3)])
  show "processing_hidden (sim_fire h now now2 s) = processing_hidden s"
    using c(8) by (simp add: sim_fire_live [OF assms(3)])
qed

theorem simulation_formula_and_end_witness:
  "map_option width (progress_bar (sim_fire 1 10050 10050
      (run [Start ''task'' 0 0 0, SimFire 1 2000 2000, SimFire 1 4000 4000,
            SimFire 1 6000 6000, SimFire 1 8000 8000, SimFire 1 10000 10000] fresh_page)))
     = Some (335 / 4) \<and>
   map_option width (progress_bar (sim_fire 1 12000 12000
      (run [Start ''task'' 0 0 0, SimFire 1 2000 2000, SimFire 1 4000 4000,
            SimFire 1 6000 6000, SimFire 1 8000 8000, SimFire 1 10000 10000] fresh_page)))
     = Some 100 \<and>
   progressInterval (sim_fire 1 12000 12000
      (run [Start ''task'' 0 0 0, SimFire 1 2000 2000, SimFire 1 4000 4000,
            SimFire 1 6000 6000, SimFire 1 8000 8000, SimFire 1 10000 10000] fresh_page))
     = Some 2"
proof -
  let ?s = "run [Start ''task'' 0 0 0, SimFire 1 2000 2000, SimFire 1 4000 4000,
            SimFire 1 6000 6000, SimFire 1 8000 8000, SimFire 1 10000 10000] fresh_page"
  let ?e = "\<lparr>currentStepIndex = 5, stepStartTime = 10000, lastProgress = 250 / 3, isTransitioning = False\<rparr>"
  have a: "progress_bar ?s = Some \<lparr>width = 100, text_pct = 100\<rparr>" by code_simp
  have b: "steps_dom ?s ''output'' = Some {Completed}" by code_simp
  have c: "timers ?s 1 = Some (SimTimer ?e)" by code_simp
  have d: "progressInterval ?s = Some 2" by code_simp
  have v: "sim_progress 5 50 = 335 / 4" by (simp add: sim_progress_def steps_def stepDuration_def)
  note th = simulation_formula_and_end [OF a b c, of 0 0]
  have h1: "10050 - stepStartTime ?e < stepDuration \<and>
            lastProgress ?e < sim_progress (currentStepIndex ?e) (10050 - stepStartTime ?e)"
    by (simp add: v stepDuration_def)
  have h2: "currentStepIndex ?e = length steps - 1 \<and> stepDuration \<le> 12000 - stepStartTime ?e"
    by (simp add: steps_def stepDuration_def)
  have p1: "map_option width (progress_bar (sim_fire 1 10050 10050 ?s))
              = Some (sim_progress (currentStepIndex ?e) (10050 - stepStartTime ?e))"
    using th [of 10050 10050] h1 by blast
  have p2: "map_option width (progress_bar (sim_fire 1 12000 12000 ?s)) = Some 100"
    using th [of 12000 12000] h2 by blast
  have p3: "progressInterval (sim_fire 1 12000 12000 ?s) = progressInterval ?s"
    using th [of 12000 12000] h2 by blast
  have p1': "map_option width (progress_bar (sim_fire 1 10050 10050 ?s)) = Some (335 / 4)"
    using p1 v by simp
  show ?thesis using p1' p2 p3 d by simp
qed

subsection \<open>C3: the component completes on its own timers\<close>

text \<open>
  Claim C3 says that the completed outcome and the call of \<open>onComplete\<close> can only come
  from a remote source, never from the local simulation. The component has no remote
  source: \<open>startStep\<close> called past the last step sets the status to completed and
  schedules \<open>onComplete\<close>. First the run in which the timers of one mount fire in the
  order of their due times and nothing else happens.
\<close>

theorem simulation_completes_alone_counterexample:
  "status (prun whole_run (mount True)) = ''Completed'' \<and>
   isCompleted (prun whole_run (mount True)) \<and>
   progress (prun whole_run (mount True)) = 100 \<and>
   onComplete_calls (prun whole_run (mount True)) = 1"
  by (simp add: component_defs replicate_numeral_Cons upt_rec del: fun_upd_None_if_notin_dom)

text \<open>
  Claim C3, amended: in one effect run, whatever the order of the firings and with or
  without cleanup, \<open>onComplete\<close> is called at most once and only after the status has
  become completed; and it is \<open>startStep\<close> past the last step, the end of the local
  simulation, that sets that status and schedules the call.
\<close>

theorem onComplete_at_most_once_after_completed:
  "onComplete_calls (prun evs (mount cb)) \<le> 1 \<and>
   (0 < onComplete_calls (prun evs (mount cb)) \<longrightarrow>
      status (prun evs (mount cb)) = ''Completed'' \<and> isCompleted (prun evs (mount cb))) \<and>
   status (startStep (length steps) s) = ''Completed'' \<and>
   isCompleted (startStep (length steps) s) \<and>
   progress (startStep (length steps) s) = 100 \<and>
   (has_onComplete s \<longrightarrow>
      pending (startStep (length steps) s) (Suc (next_id s)) = Some CallOnComplete)"
proof -
  have inv: "chain_inv (prun evs (mount cb))" using prun_inv [OF mount_inv] .
  have a: "onComplete_calls (prun evs (mount cb)) \<le> 1" using chain_invD(2) [OF inv] .
  have b: "0 < onComplete_calls (prun evs (mount cb)) \<longrightarrow>
      status (prun evs (mount cb)) = ''Completed'' \<and> isCompleted (prun evs (mount cb))"
    using chain_invD(4) [OF inv] by blast
  have c: "status (startStep (length steps) s) = ''Completed''"
    by (simp add: startStep_def schedule_def Let_def)
  have c2: "isCompleted (startStep (length steps) s)"
    by (simp add: startStep_def schedule_def Let_def)
  have c3: "progress (startStep (length steps) s) = 100"
    by (simp add: startStep_def schedule_def Let_def)
  have d: "has_onComplete s \<longrightarrow>
      pending (startStep (length steps) s) (Suc (next_id s)) = Some CallOnComplete"
    by (simp add: startStep_def schedule_def Let_def)
  show ?thesis using a b c c2 c3 d by blast
qed

theorem onComplete_at_most_once_after_completed_witness:
  "has_onComplete (mount True) \<and>
   onComplete_calls (prun (whole_run @ [Fire 19, Cleanup, Fire 19]) (mount True)) = 1 \<and>
   status (prun (whole_run @ [Fire 19, Cleanup, Fire 19]) (mount True)) = ''Completed''"
proof -
  let ?s = "prun (whole_run @ [Fire 19, Cleanup, Fire 19]) (mount True)"
  have a: "0 < onComplete_calls ?s"
    by (simp add: component_defs replicate_numeral_Cons upt_rec del: fun_upd_None_if_notin_dom)
  have h: "has_onComplete (mount True)"
    by (simp add: component_defs)
  note th = onComplete_at_most_once_after_completed [of "whole_run @ [Fire 19, Cleanup, Fire 19]" True "mount True"]
  have b: "onComplete_calls ?s \<le> 1" using th by blast
  have c: "status ?s = ''Completed''" using th a by blast
  show ?thesis using a b c h by simp
qed

subsection \<open>C4: handoff is irreversible\<close>

text \<open>
  Claim C4. Once a poll response with \<open>progress > 0\<close> has been applied, the simulation
  interval is cleared (\<open>simulationInterval\<close> is \<open>null\<close> and no simulation timer is
  scheduled), and for the rest of that run, that is until \<open>startProgressPolling\<close> is
  called again, a simulation tick for any handle at any time leaves the page unchanged.
  The page starts with no timer scheduled; the response answers a request that was sent.
\<close>

theorem handoff_irreversible:
  assumes "timers s0 = Map.empty"
    and "0 < inflight (run evs s0)"
    and "0 < progress_or_0 t"
    and "\<forall>ev\<in>set later. \<not> is_Start ev"
  shows "simulationInterval (run (evs @ [PollSettle (Json t)]) s0) = None \<and>
         (\<forall>h e. timers (run (evs @ PollSettle (Json t) # later) s0) h \<noteq> Some (SimTimer e)) \<and>
         sim_fire h now now2 (run (evs @ PollSettle (Json t) # later) s0) =
           run (evs @ PollSettle (Json t) # later) s0"
proof -
  define s where "s = run evs s0"
  define s1 where "s1 = s\<lparr>inflight := inflight s - 1\<rparr>"
  have o: "timers_owned s" unfolding s_def using run_owned [OF timers_owned_empty [OF assms(1)]] .
  then have o1: "timers_owned s1" by (simp add: s1_def timers_owned_def)
  have "run (evs @ [PollSettle (Json t)]) s0 = poll_settle (Json t) s"
    unfolding s_def by (simp add: run_def)
  moreover have "poll_settle (Json t) s = apply_status t (apply_progress t s1)"
    using assms(2) unfolding s_def [symmetric] s1_def
    by (simp add: poll_settle_def Let_def handle_task_def)
  ultimately have settle: "run (evs @ [PollSettle (Json t)]) s0 = apply_status t (apply_progress t s1)"
    by simp
  have ns: "no_sim (apply_progress t s1)" using apply_progress_no_sim(1) [OF o1 assms(3)] .
  have si: "simulationInterval (apply_progress t s1) = None" using apply_progress_no_sim(2) [OF o1 assms(3)] .
  have ns2: "no_sim (run (evs @ [PollSettle (Json t)]) s0)"
    unfolding settle using apply_status_no_sim [OF ns] .
  have a: "simulationInterval (run (evs @ [PollSettle (Json t)]) s0) = None"
    unfolding settle using apply_status_simulationInterval [OF si] .
  have eq: "run (evs @ PollSettle (Json t) # later) s0 = run later (run (evs @ [PollSettle (Json t)]) s0)"
    by (simp add: run_def)
  have ns3: "no_sim (run (evs @ PollSettle (Json t) # later) s0)"
    unfolding eq using run_no_sim [OF ns2 assms(4)] .
  show ?thesis
    using a ns3 sim_fire_no_sim [OF ns3] by (simp add: no_sim_def)
qed

theorem handoff_irreversible_witness:
  "timers fresh_page = Map.empty \<and>
   0 < inflight (run [Start ''task'' 0 0 0, PollFire 2] fresh_page) \<and>
   0 < progress_or_0 sample40 \<and>
   \<not> is_Start (SimFire 1 50 50) \<and>
   sim_fire 1 100 100
     (run ([Start ''task'' 0 0 0, PollFire 2] @ PollSettle (Json sample40) # [SimFire 1 50 50]) fresh_page)
     = run ([Start ''task'' 0 0 0, PollFire 2] @ PollSettle (Json sample40) # [SimFire 1 50 50]) fresh_page"
proof -
  have a: "timers fresh_page = Map.empty" by (simp add: fresh_page_def)
  have b: "0 < inflight (run [Start ''task'' 0 0 0, PollFire 2] fresh_page)" by code_simp
  have c: "0 < progress_or_0 sample40" by (simp add: progress_or_0_def sample40_def)
  have d: "\<forall>ev\<in>set [SimFire 1 50 50]. \<not> is_Start ev" by (simp add: is_Start_def)
  show ?thesis
    using handoff_irreversible [OF a b c d, of 1 100 100] a b c d by simp
qed

subsection \<open>C5: a completed task whose response names a current step\<close>

text \<open>
  Claim C5 says that on \<open>status == 'completed'\<close> every stage is marked completed. The
  script marks them all, and then calls \<open>updateProgress\<close> with the same task, which
  marks \<open>task.current_step\<close> active again. Evaluated on a first poll answering
  \<open>{status: 'completed', progress: 100, current_step: 'output'}\<close>: the result is
  displayed and the last stage is left active.
\<close>

theorem completed_response_leaves_current_step_active:
  "steps_dom (run [Start ''task'' 0 0 0, PollFire 2, PollSettle (Json completedAtOutput)] fresh_page) ''output''
     = Some {Active} \<and>
   displayed_results (run [Start ''task'' 0 0 0, PollFire 2, PollSettle (Json completedAtOutput)] fresh_page)
     = [''labels'']"
  by code_simp

subsection \<open>C6: a failed task ends the run when its answer is the only one in flight\<close>

text \<open>
  Claim C6 says that a response with \<open>status == 'failed'\<close> shows the error exactly once,
  that no result is displayed for that run, and that the stage states stay as last known.
  The polling interval sends a request every two seconds without waiting for the answer
  to the previous one, and the failed branch records nowhere that the run has ended: an
  answer that settles after the failure is applied like any other. First three runs: two
  requests in flight, both answered failed, show the error twice; a completed answer that
  settles after the failure displays its result; and a failed response that carries
  \<open>progress: 60\<close> is applied as a sample before the status is looked at, which marks
  the fourth stage active.
\<close>

theorem failure_with_other_answers_counterexample:
  "shown_errors (run [Start ''task'' 0 0 0, PollFire 2, PollFire 2,
                      PollSettle (Json failedE1), PollSettle (Json failedE1)] fresh_page)
     = [''E1'', ''E1''] \<and>
   displayed_results (run [Start ''task'' 0 0 0, PollFire 2, PollFire 2,
                      PollSettle (Json failedE1), PollSettle (Json completedAtOutput)] fresh_page)
     = [''labels''] \<and>
   steps_dom (run [Start ''task'' 0 0 0, PollFire 2] fresh_page) ''labeler'' = Some {} \<and>
   steps_dom (run [Start ''task'' 0 0 0, PollFire 2, PollSettle (Json failed60)] fresh_page) ''labeler''
     = Some {Active}"
  by code_simp

text \<open>
  Claim C6, amended: when a response with \<open>status == 'failed'\<close> settles, no other
  request is in flight and the step names of the response are plain, the error is shown
  exactly once, with the message of the response when it carries one; both intervals are
  cleared; nothing is displayed as a result, then or later, and until
  \<open>startProgressPolling\<close> is called again no event changes the page any more. The
  failed branch changes no step element: the step elements are what applying the
  response as a sample leaves, and a response without \<open>progress > 0\<close> leaves them as
  they were.
\<close>

theorem remote_failure_when_alone:
  assumes "timers s0 = Map.empty"
    and "inflight (run evs s0) = 1"
    and "t_status t = ''failed''"
    and "plain_steps t"
    and "\<forall>ev\<in>set later. \<not> is_Start ev"
  shows "shown_errors (run (evs @ PollSettle (Json t) # later) s0)
           = shown_errors (run evs s0) @ [error_or_default t] \<and>
         (truthy_str (t_error t) \<longrightarrow> error_or_default t = the (t_error t)) \<and>
         timers (run (evs @ [PollSettle (Json t)]) s0) = Map.empty \<and>
         simulationInterval (run (evs @ [PollSettle (Json t)]) s0) = None \<and>
         progressInterval (run (evs @ [PollSettle (Json t)]) s0) = None \<and>
         (\<forall>x. steps_dom (apply_status t x) = steps_dom x) \<and>
         steps_dom (run (evs @ [PollSettle (Json t)]) s0) = steps_dom (apply_progress t (run evs s0)) \<and>
         (progress_or_0 t \<le> 0 \<longrightarrow>
            steps_dom (run (evs @ [PollSettle (Json t)]) s0) = steps_dom (run evs s0)) \<and>
         displayed_results (run (evs @ PollSettle (Json t) # later) s0) = displayed_results (run evs s0) \<and>
         run (evs @ PollSettle (Json t) # later) s0 = run (evs @ [PollSettle (Json t)]) s0"
proof -
  define s where "s = run evs s0"
  define s1 where "s1 = s\<lparr>inflight := inflight s - 1\<rparr>"
  define s' where "s' = run (evs @ [PollSettle (Json t)]) s0"
  have o: "timers_owned s" unfolding s_def using run_owned [OF timers_owned_empty [OF assms(1)]] .
  then have o1: "timers_owned s1" by (simp add: s1_def timers_owned_def)
  have i1: "inflight s1 = 0" using assms(2) by (simp add: s1_def s_def)
  have "s' = poll_settle (Json t) s" unfolding s'_def s_def by (simp add: run_def)
  also have "\<dots> = handle_task t s1"
    using assms(2) unfolding s_def [symmetric] s1_def by (simp add: poll_settle_def Let_def)
  finally have s': "s' = handle_task t s1" .
  note fe = failed_effect [OF o1 assms(3)]
  have quiet: "run later s' = s'"
    using quiet_run [of s' later] fe(1) fe(6) i1 assms(5) by (simp add: s')
  have later: "run (evs @ PollSettle (Json t) # later) s0 = s'"
    using quiet unfolding s'_def by (simp add: run_def)
  have errs: "shown_errors s' = shown_errors s @ [error_or_default t]"
    using fe(4) by (simp add: s' s1_def)
  have res: "displayed_results s' = displayed_results s"
    using fe(5) by (simp add: s' s1_def)
  have "steps_dom s1 = steps_dom s" by (simp add: s1_def)
  then have "steps_dom (apply_progress t s1) = steps_dom (apply_progress t s)"
    by (rule dom_cong_apply_progress)
  then have dom: "steps_dom s' = steps_dom (apply_progress t s)"
    by (simp add: s' handle_task_def dom_apply_status_failed [OF assms(3)])
  have dom0: "progress_or_0 t \<le> 0 \<longrightarrow> steps_dom s' = steps_dom s"
    using dom by (simp add: apply_progress_absent)
  have msg: "truthy_str (t_error t) \<longrightarrow> error_or_default t = the (t_error t)"
    by (simp add: error_or_default_def)
  have tm: "timers s' = Map.empty" and si: "simulationInterval s' = None"
    and pi: "progressInterval s' = None"
    using fe(1,2,3) by (simp_all add: s')
  have st: "\<forall>x. steps_dom (apply_status t x) = steps_dom x"
    using dom_apply_status_failed [OF assms(3)] by blast
  have c1: "shown_errors (run (evs @ PollSettle (Json t) # later) s0)
           = shown_errors (run evs s0) @ [error_or_default t]"
    unfolding later s_def [symmetric] by (rule errs)
  have c9: "displayed_results (run (evs @ PollSettle (Json t) # later) s0) = displayed_results (run evs s0)"
    unfolding later s_def [symmetric] by (rule res)
  have c10: "run (evs @ PollSettle (Json t) # later) s0 = run (evs @ [PollSettle (Json t)]) s0"
    unfolding later s'_def by (rule refl)
  show ?thesis
    unfolding s'_def [symmetric] s_def [symmetric]
    using c1 c9 c10 msg tm si pi st dom dom0
    unfolding s'_def [symmetric] s_def [symmetric]
    by blast
qed

theorem remote_failure_when_alone_witness:
  "inflight (run [Start ''task'' 0 0 0, PollFire 2, PollSettle (Json sample40), PollFire 2] fresh_page) = 1 \<and>
   t_status failedE1 = ''failed'' \<and>
   plain_steps failedE1 \<and>
   shown_errors (run ([Start ''task'' 0 0 0, PollFire 2, PollSettle (Json sample40), PollFire 2]
        @ PollSettle (Json failedE1) # [SimFire 1 50 50, PollFire 2, PollSettle (Json sample40)]) fresh_page)
     = [''E1''] \<and>
   displayed_results (run ([Start ''task'' 0 0 0, PollFire 2, PollSettle (Json sample40), PollFire 2]
        @ PollSettle (Json failedE1) # [SimFire 1 50 50, PollFire 2, PollSettle (Json sample40)]) fresh_page)
     = [] \<and>
   steps_dom (run ([Start ''task'' 0 0 0, PollFire 2, PollSettle (Json sample40), PollFire 2]
        @ [PollSettle (Json failedE1)]) fresh_page) ''classifier''
     = Some {Active}"
proof -
  let ?evs = "[Start ''task'' 0 0 0, PollFire 2, PollSettle (Json sample40), PollFire 2]"
  let ?later = "[SimFire 1 50 50, PollFire 2, PollSettle (Json sample40)]"
  have a: "timers fresh_page = Map.empty" by (simp add: fresh_page_def)
  have b: "inflight (run ?evs fresh_page) = 1" by code_simp
  have c: "t_status failedE1 = ''failed''" by (simp add: failedE1_def)
  have p: "plain_steps failedE1" by (simp add: plain_steps_def failedE1_def)
  have d: "\<forall>ev\<in>set ?later. \<not> is_Start ev" by (simp add: is_Start_def)
  have e: "shown_errors (run ?evs fresh_page) = []" by code_simp
  have f: "displayed_results (run ?evs fresh_page) = []" by code_simp
  have g: "error_or_default failedE1 = ''E1''" by (simp add: error_or_default_def failedE1_def truthy_str_def)
  have h: "progress_or_0 failedE1 \<le> 0" by (simp add: progress_or_0_def failedE1_def)
  have k: "steps_dom (run ?evs fresh_page) ''classifier'' = Some {Active}" by code_simp
  note th = remote_failure_when_alone [OF a b c p d]
  have p1: "shown_errors (run (?evs @ PollSettle (Json failedE1) # ?later) fresh_page)
     = shown_errors (run ?evs fresh_page) @ [error_or_default failedE1]"
    using th by blast
  have p2: "displayed_results (run (?evs @ PollSettle (Json failedE1) # ?later) fresh_page)
     = displayed_results (run ?evs fresh_page)"
    using th by blast
  have p3: "steps_dom (run (?evs @ [PollSettle (Json failedE1)]) fresh_page) = steps_dom (run ?evs fresh_page)"
    using th h by blast
  show ?thesis
    using b c p e f g k p1 p2 p3 by simp
qed

subsection \<open>C7: a transient poll failure is swallowed\<close>

text \<open>
  Claim C7. A status request that rejects, or whose response is not ok, changes nothing
  on the page: no error is shown, no result is displayed, both intervals stay scheduled,
  and the next firing of the polling interval sends the next request. How long the
  interval waits is the timer's own business and is not modelled.
\<close>

theorem transient_poll_failure_is_silent:
  assumes "0 < inflight s" and "r = Rejected \<or> r = NotOk" and "timers s h = Some (PollTimer taskId)"
  shows "poll_settle r s = s\<lparr>inflight := inflight s - 1\<rparr> \<and>
         shown_errors (poll_settle r s) = shown_errors s \<and>
         displayed_results (poll_settle r s) = displayed_results s \<and>
         timers (poll_settle r s) = timers s \<and>
         progressInterval (poll_settle r s) = progressInterval s \<and>
         simulationInterval (poll_settle r s) = simulationInterval s \<and>
         inflight (poll_fire h (poll_settle r s)) = inflight (poll_settle r s) + 1"
  using assms by (auto simp: poll_settle_def poll_fire_def)

theorem transient_poll_failure_is_silent_witness:
  "0 < inflight (run [Start ''task'' 0 0 0, PollFire 2] fresh_page) \<and>
   timers (run [Start ''task'' 0 0 0, PollFire 2] fresh_page) 2 = Some (PollTimer ''task'') \<and>
   shown_errors (poll_settle Rejected (run [Start ''task'' 0 0 0, PollFire 2] fresh_page)) = [] \<and>
   inflight (poll_fire 2 (poll_settle Rejected (run [Start ''task'' 0 0 0, PollFire 2] fresh_page))) = 1"
proof -
  let ?s = "run [Start ''task'' 0 0 0, PollFire 2] fresh_page"
  have a: "0 < inflight ?s" by code_simp
  have b: "timers ?s 2 = Some (PollTimer ''task'')" by code_simp
  have c: "shown_errors ?s = []" by code_simp
  have d: "inflight ?s = 1" by code_simp
  have r: "Rejected = Rejected \<or> Rejected = NotOk" by simp
  note th = transient_poll_failure_is_silent [OF a r b]
  have p1: "inflight (poll_fire 2 (poll_settle Rejected ?s)) = inflight (poll_settle Rejected ?s) + 1"
    using th by blast
  have p2: "poll_settle Rejected ?s = ?s\<lparr>inflight := inflight ?s - 1\<rparr>"
    using th by blast
  have p3: "inflight (poll_settle Rejected ?s) = 0"
    by (subst p2) (simp add: d)
  have p4: "shown_errors (poll_settle Rejected ?s) = shown_errors ?s"
    using th by blast
  show ?thesis
    using a b c p1 p3 p4 by simp
qed

subsection \<open>C8: several stages can be active at once\<close>

text \<open>
  Claim C8 says that at most one stage is active in every snapshot. \<open>updateStepStatus\<close>
  changes the named element only, so a response that marks another stage active than the
  simulator did leaves both active. First such a run: the simulator is at the third stage
  when a response reports 20 percent at the second.
\<close>

theorem two_active_counterexample:
  "active_count (run [Start ''task'' 0 0 0, SimFire 1 2000 2000, SimFire 1 4000 4000,
                      PollFire 2, PollSettle (Json sample20)] fresh_page) = 2"
  by code_simp

text \<open>
  Claim C8, amended: in a run of simulated ticks alone, started on a page where no stage
  but the first is active, at most one stage is active after every tick; and
  \<open>updateStepStatus\<close> never changes the classes of another element than the one it
  names, so the marks of a response add to those already there.
\<close>

theorem simulation_keeps_single_active:
  assumes "timers s0 = Map.empty"
    and "\<forall>n\<in>set steps. active_in s0 n \<longrightarrow> n = steps ! 0"
    and "\<forall>ev\<in>set ticks. is_SimFire ev"
  shows "active_count (run (Start taskId t0 t1 t2 # ticks) s0) \<le> 1 \<and>
         (\<forall>n. n \<noteq> m \<longrightarrow> steps_dom (updateStepStatus m st s) n = steps_dom s n)"
proof -
  have a: "only_active_at s0 0" using assms(2) by (simp add: only_active_at_def step_at_0)
  have "sim_inv (startProgressPolling taskId t0 t1 t2 s0)"
    using start_sim_inv [OF timers_owned_empty [OF assms(1)] a] .
  then have "sim_inv (run ticks (startProgressPolling taskId t0 t1 t2 s0))"
    using assms(3) by (rule ticks_sim_inv)
  then have "sim_inv (run (Start taskId t0 t1 t2 # ticks) s0)" by (simp add: run_def)
  then obtain i where "only_active_at (run (Start taskId t0 t1 t2 # ticks) s0) i"
    unfolding sim_inv_def by blast
  then have "active_count (run (Start taskId t0 t1 t2 # ticks) s0) \<le> 1" by (rule only_active_count)
  then show ?thesis by (simp add: dom_updateStepStatus)
qed

theorem simulation_keeps_single_active_witness:
  "timers fresh_page = Map.empty \<and>
   \<not> active_in fresh_page ''router'' \<and>
   is_SimFire (SimFire 1 2000 2000) \<and>
   active_count (run [Start ''task'' 0 0 0, SimFire 1 2000 2000, SimFire 1 4000 4000] fresh_page) = 1"
proof -
  have a: "timers fresh_page = Map.empty" by (simp add: fresh_page_def)
  have b: "\<forall>n\<in>set steps. active_in fresh_page n \<longrightarrow> n = steps ! 0"
    by (simp add: steps_def active_in_def fresh_page_def)
  have c: "\<forall>ev\<in>set [SimFire 1 2000 2000, SimFire 1 4000 4000]. is_SimFire ev"
    by (simp add: is_SimFire_def)
  have d: "\<not> active_in fresh_page ''router''" by (simp add: steps_def active_in_def fresh_page_def)
  have e: "0 < active_count (run [Start ''task'' 0 0 0, SimFire 1 2000 2000, SimFire 1 4000 4000] fresh_page)"
    by code_simp
  have "active_count (run (Start ''task'' 0 0 0 # [SimFire 1 2000 2000, SimFire 1 4000 4000]) fresh_page) \<le> 1"
    using simulation_keeps_single_active [OF a b c] by blast
  with e have "active_count (run [Start ''task'' 0 0 0, SimFire 1 2000 2000, SimFire 1 4000 4000] fresh_page) = 1"
    by simp
  then show ?thesis using a d by (simp add: is_SimFire_def)
qed

subsection \<open>C9: a timeout the cleanup does not clear\<close>

text \<open>
  Claim C9 says that after the cleanup no timer of the run is pending and no callback
  changes anything. The cleanup clears the handles in \<open>progressTimer\<close> and
  \<open>stepTimer\<close>; the 200 ms timeout that starts the next step is kept in no variable.
  Evaluated on a mount that is cleaned up 1600 ms later, after the first step timeout
  (1500 ms) and before the next step starts (1700 ms): the timeout with handle 3 is still
  pending, its firing marks the second step active and creates two new timers, and the
  run goes on to call \<open>onComplete\<close>.
\<close>

theorem cleanup_leaves_next_step_timeout:
  "pending (prun (replicate 30 (Fire 1) @ [Fire 2, Cleanup]) (mount True)) 3 = Some (NextStep 0) \<and>
   stepStatuses (prun (replicate 30 (Fire 1) @ [Fire 2, Cleanup, Fire 3]) (mount True)) ! 1 = Active \<and>
   pending (prun (replicate 30 (Fire 1) @ [Fire 2, Cleanup, Fire 3]) (mount True)) 5 = Some (StepDone 1) \<and>
   onComplete_calls (prun (replicate 30 (Fire 1) @ [Fire 2, Cleanup, Fire 3]
        @ concat (map step_firings [1 ..< 6]) @ [Fire 19]) (mount True)) = 1"
  by (simp add: component_defs replicate_numeral_Cons upt_rec del: fun_upd_None_if_notin_dom)

subsection \<open>C10: one timer of each kind\<close>

text \<open>
  Claim C10. Starting from a page with no timer, after any sequence of events every
  scheduled simulation timer is the one held in \<open>simulationInterval\<close> and every
  scheduled polling timer is the one held in \<open>progressInterval\<close>, so there is at most
  one of each; and a call of \<open>startProgressPolling\<close> leaves none of the timers
  scheduled before it: exactly its own two remain.
\<close>

theorem one_timer_of_each_kind:
  assumes "timers s0 = Map.empty"
  shows "(\<forall>h e. timers (run evs s0) h = Some (SimTimer e) \<longrightarrow> simulationInterval (run evs s0) = Some h) \<and>
         (\<forall>h tid. timers (run evs s0) h = Some (PollTimer tid) \<longrightarrow> progressInterval (run evs s0) = Some h) \<and>
         (\<forall>h h' e e'. timers (run evs s0) h = Some (SimTimer e) \<and> timers (run evs s0) h' = Some (SimTimer e')
             \<longrightarrow> h = h') \<and>
         (\<forall>h h' a a'. timers (run evs s0) h = Some (PollTimer a) \<and> timers (run evs s0) h' = Some (PollTimer a')
             \<longrightarrow> h = h') \<and>
         (\<forall>h t. timers (run evs s0) h = Some t \<longrightarrow>
             timers (startProgressPolling taskId t0 t1 t2 (run evs s0)) h = None) \<and>
         (\<exists>e. timers (startProgressPolling taskId t0 t1 t2 (run evs s0)) =
                 [Suc (next_handle (run evs s0)) \<mapsto> SimTimer e,
                  Suc (Suc (next_handle (run evs s0))) \<mapsto> PollTimer taskId])"
proof -
  define s where "s = run evs s0"
  have o: "timers_owned s" unfolding s_def using run_owned [OF timers_owned_empty [OF assms]] .
  have a: "\<forall>h e. timers s h = Some (SimTimer e) \<longrightarrow> simulationInterval s = Some h"
    and b: "\<forall>h tid. timers s h = Some (PollTimer tid) \<longrightarrow> progressInterval s = Some h"
    using o by (simp_all add: timers_owned_def)
  have c: "\<forall>h h' e e'. timers s h = Some (SimTimer e) \<and> timers s h' = Some (SimTimer e') \<longrightarrow> h = h'"
    using a by (metis option.inject)
  have d: "\<forall>h h' a a'. timers s h = Some (PollTimer a) \<and> timers s h' = Some (PollTimer a') \<longrightarrow> h = h'"
    using b by (metis option.inject)
  have e: "\<forall>h t. timers s h = Some t \<longrightarrow> timers (startProgressPolling taskId t0 t1 t2 s) h = None"
    using start_drops_old_timers [OF o] by blast
  obtain e1 where c1: "controls (startProgressPolling taskId t0 t1 t2 s) =
     (let c = clear_simulation (clear_polling s); n = next_handle c
      in ((timers c)(Suc n \<mapsto> SimTimer e1, Suc (Suc n) \<mapsto> PollTimer taskId),
          Some (Suc (Suc n)), Some (Suc n), Suc (Suc n), inflight c, shown_errors c,
          displayed_results c, map_option (\<lambda>_. False) (processing_hidden c)))"
    using start_controls by blast
  have f: "timers (startProgressPolling taskId t0 t1 t2 s) =
             [Suc (next_handle s) \<mapsto> SimTimer e1, Suc (Suc (next_handle s)) \<mapsto> PollTimer taskId]"
    using c1 clear_both_empty [OF o]
    by (simp add: controls_def Let_def clear_simulation_keeps clear_polling_keeps)
  show ?thesis
    unfolding s_def [symmetric] using a b c d e f by blast
qed

theorem one_timer_of_each_kind_witness:
  "timers (run [Start ''task'' 0 0 0] fresh_page) 1 \<noteq> None \<and>
   timers (run [Start ''task'' 0 0 0] fresh_page) 2 = Some (PollTimer ''task'') \<and>
   progressInterval (run [Start ''task'' 0 0 0] fresh_page) = Some 2 \<and>
   timers (startProgressPolling ''again'' 70 70 70 (run [Start ''task'' 0 0 0] fresh_page)) 1 = None \<and>
   timers (startProgressPolling ''again'' 70 70 70 (run [Start ''task'' 0 0 0] fresh_page)) 2 = None"
proof -
  have a: "timers fresh_page = Map.empty" by (simp add: fresh_page_def)
  have b: "timers (run [Start ''task'' 0 0 0] fresh_page) 2 = Some (PollTimer ''task'')" by code_simp
  have c: "timers (run [Start ''task'' 0 0 0] fresh_page) 1 \<noteq> None" by code_simp
  from c obtain t where t: "timers (run [Start ''task'' 0 0 0] fresh_page) 1 = Some t" by blast
  show ?thesis
    using one_timer_of_each_kind [OF a, of "[Start ''task'' 0 0 0]" "''again''" 70 70 70] b c t
    by simp
qed


end

